theory Spec2Isabelle
  imports Main
begin

section \<open>Host values: Python floats, booleans and integers\<close>

text \<open>
  The evaluator of \<^verbatim>\<open>parser.py\<close> computes with the values of its host language:
  \<^verbatim>\<open>float(result)\<close> builds an IEEE 754 binary64 number, and the operators
  \<^verbatim>\<open>*\<close>, \<^verbatim>\<open>/\<close>, \<^verbatim>\<open>%\<close>, unary \<^verbatim>\<open>-\<close> and \<^verbatim>\<open>not\<close> are Python's.
  A finite float \<open>Fin s m e\<close> stands for \<open>(-1)\<^sup>s \<sdot> m \<sdot> 2\<^sup>e\<close>; the operations below
  return it with \<open>m\<close> odd (or \<open>m = 0\<close>, \<open>e = 0\<close>), so \<open>2.0\<close> is \<open>Fin False 1 1\<close>,
  \<open>6.0\<close> is \<open>Fin False 3 1\<close> and \<open>2.5\<close> is \<open>Fin False 5 (- 1)\<close>.
\<close>

datatype pyfloat = Fin bool nat int | Inf bool | NaN

function bitlen :: "int \<Rightarrow> int" where
  "bitlen n = (if n \<le> 0 then 0 else 1 + bitlen (n div 2))"
  by pat_completeness auto
termination
  by (relation "measure nat") auto

declare bitlen.simps [simp del]

function strip :: "int \<Rightarrow> int \<Rightarrow> int \<times> int" where
  "strip m e = (if m = 0 then (0, 0) else if even m then strip (m div 2) (e + 1) else (m, e))"
  by pat_completeness auto
termination
  by (relation "measure (\<lambda>(m, e). nat \<bar>m\<bar>)") auto

declare strip.simps [simp del]

text \<open>\<open>floor_log2 a b\<close> is the integer part of the binary logarithm of \<open>a / b\<close>, for positive \<open>a\<close>, \<open>b\<close>.\<close>

definition floor_log2 :: "int \<Rightarrow> int \<Rightarrow> int" where
  "floor_log2 a b =
     (let d = bitlen a - bitlen b
      in if (if 0 \<le> d then b * 2 ^ nat d \<le> a else b \<le> a * 2 ^ nat (- d)) then d else d - 1)"

definition round_half_even :: "int \<Rightarrow> int \<Rightarrow> int" where
  "round_half_even num den =
     (let q = num div den; r = num mod den
      in if 2 * r < den then q
         else if den < 2 * r then q + 1
         else if even q then q else q + 1)"

text \<open>
  \<open>round_ratio s a b e\<close> is the binary64 number nearest to \<open>(-1)\<^sup>s \<sdot> (a / b) \<sdot> 2\<^sup>e\<close>
  (ties to even), for \<open>0 \<le> a\<close> and \<open>0 < b\<close>: 53 significant bits, the last place no
  smaller than \<open>2\<^sup>-\<^sup>1\<^sup>0\<^sup>7\<^sup>4\<close>, and infinity from \<open>2\<^sup>1\<^sup>0\<^sup>2\<^sup>4\<close> on.
\<close>

definition round_ratio :: "bool \<Rightarrow> int \<Rightarrow> int \<Rightarrow> int \<Rightarrow> pyfloat" where
  "round_ratio s a b e =
     (if a = 0 then Fin s 0 0
      else
        let t = max (floor_log2 a b + e - 52) (- 1074);
            k = e - t;
            n = (if 0 \<le> k then round_half_even (a * 2 ^ nat k) b
                 else round_half_even a (b * 2 ^ nat (- k)))
        in if 971 < t \<or> (t = 971 \<and> n = 2 ^ 53) then Inf s
           else case strip n t of (m, e') \<Rightarrow> Fin s (nat m) e')"

fun fneg :: "pyfloat \<Rightarrow> pyfloat" where
  "fneg (Fin s m e) = Fin (\<not> s) m e"
| "fneg (Inf s) = Inf (\<not> s)"
| "fneg NaN = NaN"

fun fmul :: "pyfloat \<Rightarrow> pyfloat \<Rightarrow> pyfloat" where
  "fmul NaN y = NaN"
| "fmul x NaN = NaN"
| "fmul (Inf s1) (Inf s2) = Inf (s1 \<noteq> s2)"
| "fmul (Inf s1) (Fin s2 m e) = (if m = 0 then NaN else Inf (s1 \<noteq> s2))"
| "fmul (Fin s1 m e) (Inf s2) = (if m = 0 then NaN else Inf (s1 \<noteq> s2))"
| "fmul (Fin s1 m1 e1) (Fin s2 m2 e2) = round_ratio (s1 \<noteq> s2) (int m1 * int m2) 1 (e1 + e2)"

fun fdiv :: "pyfloat \<Rightarrow> pyfloat \<Rightarrow> pyfloat" where
  "fdiv NaN y = NaN"
| "fdiv x NaN = NaN"
| "fdiv (Inf s1) (Inf s2) = NaN"
| "fdiv (Inf s1) (Fin s2 m e) = Inf (s1 \<noteq> s2)"
| "fdiv (Fin s1 m e) (Inf s2) = Fin (s1 \<noteq> s2) 0 0"
| "fdiv (Fin s1 m1 e1) (Fin s2 m2 e2) =
     (if m2 = 0 then (if m1 = 0 then NaN else Inf (s1 \<noteq> s2))
      else round_ratio (s1 \<noteq> s2) (int m1) (int m2) (e1 - e2))"

definition signed_mant :: "bool \<Rightarrow> int \<Rightarrow> int" where
  "signed_mant s m = (if s then - m else m)"

fun fadd :: "pyfloat \<Rightarrow> pyfloat \<Rightarrow> pyfloat" where
  "fadd NaN y = NaN"
| "fadd x NaN = NaN"
| "fadd (Inf s1) (Inf s2) = (if s1 = s2 then Inf s1 else NaN)"
| "fadd (Inf s1) (Fin s2 m e) = Inf s1"
| "fadd (Fin s1 m e) (Inf s2) = Inf s2"
| "fadd (Fin s1 m1 e1) (Fin s2 m2 e2) =
     (let e = min e1 e2;
          t = signed_mant s1 (int m1 * 2 ^ nat (e1 - e)) + signed_mant s2 (int m2 * 2 ^ nat (e2 - e))
      in if t = 0 then Fin (s1 \<and> s2) 0 0 else round_ratio (t < 0) \<bar>t\<bar> 1 e)"

text \<open>C's \<^verbatim>\<open>fmod\<close>: the exact remainder of the truncated quotient, with the sign of the dividend.\<close>

fun fmod :: "pyfloat \<Rightarrow> pyfloat \<Rightarrow> pyfloat" where
  "fmod NaN y = NaN"
| "fmod x NaN = NaN"
| "fmod (Inf s1) y = NaN"
| "fmod (Fin s1 m e) (Inf s2) = Fin s1 m e"
| "fmod (Fin s1 m1 e1) (Fin s2 m2 e2) =
     (if m2 = 0 then NaN
      else let e = min e1 e2
           in case strip ((int m1 * 2 ^ nat (e1 - e)) mod (int m2 * 2 ^ nat (e2 - e))) e of
                (m, e') \<Rightarrow> Fin s1 (nat m) e')"

fun is_zero :: "pyfloat \<Rightarrow> bool" where
  "is_zero (Fin s m e) = (m = 0)"
| "is_zero (Inf s) = False"
| "is_zero NaN = False"

fun is_neg :: "pyfloat \<Rightarrow> bool" where
  "is_neg (Fin s m e) = (s \<and> m \<noteq> 0)"
| "is_neg (Inf s) = s"
| "is_neg NaN = False"

fun is_finite :: "pyfloat \<Rightarrow> bool" where
  "is_finite (Fin s m e) = True"
| "is_finite (Inf s) = False"
| "is_finite NaN = False"

fun sign_bit :: "pyfloat \<Rightarrow> bool" where
  "sign_bit (Fin s m e) = s"
| "sign_bit (Inf s) = s"
| "sign_bit NaN = False"

text \<open>\<open>float_is x n d\<close>: the float \<open>x\<close> is finite and is exactly the fraction \<open>n / d\<close>.\<close>

definition float_is :: "pyfloat \<Rightarrow> int \<Rightarrow> int \<Rightarrow> bool" where
  "float_is x n d =
     (case x of
        Fin s m e \<Rightarrow> signed_mant s (int m) * 2 ^ nat e * d = n * 2 ^ nat (- e)
      | Inf s \<Rightarrow> False
      | NaN \<Rightarrow> False)"

section \<open>Errors\<close>

text \<open>
  Every \<^verbatim>\<open>raise\<close> of the source and every exception of the host is a value:
  \<^item> \<open>UnexpectedCharacter c l k\<close>: \<^verbatim>\<open>Lexer.error\<close>, whose message holds
    \<^verbatim>\<open>current_char\<close>, \<^verbatim>\<open>line\<close> and \<^verbatim>\<open>column\<close>;
  \<^item> \<open>UnexpectedToken expected got\<close>: the mismatch of \<^verbatim>\<open>Parser.eat\<close>;
  \<^item> \<open>InvalidFactor\<close>: \<^verbatim>\<open>Exception('Invalid factor')\<close>;
  \<^item> \<open>DivisionByZero\<close>: \<^verbatim>\<open>Exception('Division by zero')\<close>, raised by \<^verbatim>\<open>Parser.term\<close>;
  \<^item> \<open>ValueError s\<close>: \<^verbatim>\<open>float(s)\<close> could not convert the string \<open>s\<close>;
  \<^item> \<open>ZeroDivisionError\<close>, \<open>OverflowError\<close>, \<open>TypeError\<close>: raised by the host's
    arithmetic operators.
\<close>

datatype TokenType =
    IF | THEN | ELSE | PLUS | MINUS | MULTIPLY | DIVIDE | POWER | MODULO
  | AND | OR | NOT | EQUAL | NOT_EQUAL | LESS | GREATER | NUMBER | LPAREN | RPAREN | EOF

datatype error =
    UnexpectedCharacter "char option" int int
  | UnexpectedToken TokenType TokenType
  | InvalidFactor
  | DivisionByZero
  | ValueError string
  | ZeroDivisionError
  | OverflowError
  | TypeError

section \<open>Host operators\<close>

text \<open>
  \<^verbatim>\<open>float_rem\<close> of CPython: \<^verbatim>\<open>fmod\<close>, then, when the remainder is not zero and its
  sign differs from the divisor's, the divisor is added; a zero remainder takes the
  divisor's sign. A zero divisor raises \<^verbatim>\<open>ZeroDivisionError\<close>.
\<close>

definition float_rem :: "pyfloat \<Rightarrow> pyfloat \<Rightarrow> error + pyfloat" where
  "float_rem vx wx =
     (if is_zero wx then Inl ZeroDivisionError
      else let md = fmod vx wx
           in if \<not> is_zero md
              then (if is_neg wx \<noteq> is_neg md then Inr (fadd md wx) else Inr md)
              else Inr (Fin (sign_bit wx) 0 0))"

definition float_div :: "pyfloat \<Rightarrow> pyfloat \<Rightarrow> error + pyfloat" where
  "float_div a b = (if is_zero b then Inl ZeroDivisionError else Inr (fdiv a b))"

text \<open>
  A value of the evaluator is whatever Python object the grammar functions pass up:
  the float of a \<^verbatim>\<open>NUMBER\<close> token, the \<^verbatim>\<open>bool\<close> of \<^verbatim>\<open>not\<close>, and the \<^verbatim>\<open>int\<close> that
  arithmetic on booleans gives (\<^verbatim>\<open>-True\<close> is \<^verbatim>\<open>-1\<close>). \<open>PStr\<close> and \<open>PNone\<close> are the
  payloads of the other tokens (\<^verbatim>\<open>value: Any\<close>).
\<close>

datatype pyval = PFloat pyfloat | PBool bool | PInt int | PStr string | PNone

fun truthy :: "pyval \<Rightarrow> bool" where
  "truthy (PFloat x) = (\<not> is_zero x)"
| "truthy (PBool b) = b"
| "truthy (PInt i) = (i \<noteq> 0)"
| "truthy (PStr s) = (s \<noteq> [])"
| "truthy PNone = False"

definition py_not :: "pyval \<Rightarrow> pyval" where
  "py_not v = PBool (\<not> truthy v)"

text \<open>\<open>py_eq_zero v\<close> is the comparison \<^verbatim>\<open>v == 0\<close>.\<close>

fun py_eq_zero :: "pyval \<Rightarrow> bool" where
  "py_eq_zero (PFloat x) = is_zero x"
| "py_eq_zero (PBool b) = (\<not> b)"
| "py_eq_zero (PInt i) = (i = 0)"
| "py_eq_zero (PStr s) = False"
| "py_eq_zero PNone = False"

fun as_int :: "pyval \<Rightarrow> int option" where
  "as_int (PBool b) = Some (if b then 1 else 0)"
| "as_int (PInt i) = Some i"
| "as_int (PFloat x) = None"
| "as_int (PStr s) = None"
| "as_int PNone = None"

definition int_to_float :: "int \<Rightarrow> error + pyfloat" where
  "int_to_float i =
     (case round_ratio (i < 0) \<bar>i\<bar> 1 0 of
        Inf s \<Rightarrow> Inl OverflowError
      | x \<Rightarrow> Inr x)"

fun to_float :: "pyval \<Rightarrow> error + pyfloat" where
  "to_float (PFloat x) = Inr x"
| "to_float (PBool b) = int_to_float (if b then 1 else 0)"
| "to_float (PInt i) = int_to_float i"
| "to_float (PStr s) = Inl TypeError"
| "to_float PNone = Inl TypeError"

definition float_op ::
  "(pyfloat \<Rightarrow> pyfloat \<Rightarrow> error + pyfloat) \<Rightarrow> pyval \<Rightarrow> pyval \<Rightarrow> error + pyval" where
  "float_op f a b =
     (case to_float a of
        Inl e \<Rightarrow> Inl e
      | Inr x \<Rightarrow>
          (case to_float b of
             Inl e \<Rightarrow> Inl e
           | Inr y \<Rightarrow> (case f x y of Inl e \<Rightarrow> Inl e | Inr z \<Rightarrow> Inr (PFloat z))))"

fun py_neg :: "pyval \<Rightarrow> error + pyval" where
  "py_neg (PFloat x) = Inr (PFloat (fneg x))"
| "py_neg (PBool b) = Inr (PInt (- (if b then 1 else 0)))"
| "py_neg (PInt i) = Inr (PInt (- i))"
| "py_neg (PStr s) = Inl TypeError"
| "py_neg PNone = Inl TypeError"

text \<open>
  \<^verbatim>\<open>a * b\<close>: the product of two integers (booleans count as 0 and 1) is an integer, a
  string times an integer is the repeated string, and a float operand makes the product
  a float.
\<close>

definition py_mul :: "pyval \<Rightarrow> pyval \<Rightarrow> error + pyval" where
  "py_mul a b =
     (case (as_int a, as_int b) of
        (Some i, Some j) \<Rightarrow> Inr (PInt (i * j))
      | _ \<Rightarrow>
        (case (a, as_int b) of
           (PStr s, Some j) \<Rightarrow> Inr (PStr (concat (replicate (nat j) s)))
         | _ \<Rightarrow>
           (case (as_int a, b) of
              (Some i, PStr s) \<Rightarrow> Inr (PStr (concat (replicate (nat i) s)))
            | _ \<Rightarrow> float_op (\<lambda>x y. Inr (fmul x y)) a b)))"

text \<open>\<^verbatim>\<open>a / b\<close>: true division; two integers give the correctly rounded float quotient.\<close>

definition py_truediv :: "pyval \<Rightarrow> pyval \<Rightarrow> error + pyval" where
  "py_truediv a b =
     (case (as_int a, as_int b) of
        (Some i, Some j) \<Rightarrow>
          if j = 0 then Inl ZeroDivisionError
          else (case round_ratio ((i < 0) \<noteq> (j < 0)) \<bar>i\<bar> \<bar>j\<bar> 0 of
                  Inf s \<Rightarrow> Inl OverflowError
                | x \<Rightarrow> Inr (PFloat x))
      | _ \<Rightarrow> float_op float_div a b)"

text \<open>
  \<^verbatim>\<open>a % b\<close>: the floored remainder of two integers, \<^verbatim>\<open>float_rem\<close> when a float is
  involved. A string on the left would format; no grammar function passes one (only the
  float of a \<^verbatim>\<open>NUMBER\<close> token is returned by \<^verbatim>\<open>factor\<close>), and the model answers
  \<open>TypeError\<close> there as for every other operand that is not a number.
\<close>

definition py_mod :: "pyval \<Rightarrow> pyval \<Rightarrow> error + pyval" where
  "py_mod a b =
     (case (as_int a, as_int b) of
        (Some i, Some j) \<Rightarrow>
          if j = 0 then Inl ZeroDivisionError else Inr (PInt (i mod j))
      | _ \<Rightarrow> float_op float_rem a b)"

text \<open>
  \<^verbatim>\<open>float(s)\<close> on the strings \<^verbatim>\<open>Lexer.number\<close> builds (digit characters and dots):
  decimal digits with at most one dot and at least one digit convert, correctly rounded;
  anything else raises \<^verbatim>\<open>ValueError\<close>.
\<close>

definition is_ascii_digit :: "char \<Rightarrow> bool" where
  "is_ascii_digit c = (let n = (of_char c :: nat) in 48 \<le> n \<and> n \<le> 57)"

definition digit_val :: "char \<Rightarrow> int" where
  "digit_val c = of_char c - 48"

definition digits_val :: "string \<Rightarrow> int" where
  "digits_val ds = foldl (\<lambda>acc c. 10 * acc + digit_val c) 0 ds"

definition py_float :: "string \<Rightarrow> error + pyfloat" where
  "py_float s =
     (let ip = takeWhile (\<lambda>c. c \<noteq> CHR ''.'') s;
          fp = drop (Suc (length ip)) s
      in if list_all is_ascii_digit (ip @ fp) \<and> ip @ fp \<noteq> []
         then Inr (round_ratio False (digits_val (ip @ fp)) (10 ^ length fp) 0)
         else Inl (ValueError s))"

section \<open>Characters\<close>

text \<open>
  The input is a \<open>string\<close>; a \<open>char\<close> is read as the code point of the same number
  (U+0000 to U+00FF), and the predicates are Python's \<^verbatim>\<open>str\<close> methods on these code
  points.
\<close>

definition code :: "char \<Rightarrow> nat" where
  "code c = of_char c"

definition isspace :: "char \<Rightarrow> bool" where
  "isspace c = (let n = code c in
     (9 \<le> n \<and> n \<le> 13) \<or> (28 \<le> n \<and> n \<le> 32) \<or> n = 133 \<or> n = 160)"

definition isdigit :: "char \<Rightarrow> bool" where
  "isdigit c = (let n = code c in (48 \<le> n \<and> n \<le> 57) \<or> n = 178 \<or> n = 179 \<or> n = 185)"

definition isalpha :: "char \<Rightarrow> bool" where
  "isalpha c = (let n = code c in
     (65 \<le> n \<and> n \<le> 90) \<or> (97 \<le> n \<and> n \<le> 122) \<or> n = 170 \<or> n = 181 \<or> n = 186
     \<or> (192 \<le> n \<and> n \<le> 214) \<or> (216 \<le> n \<and> n \<le> 246) \<or> (248 \<le> n \<and> n \<le> 255))"

definition isalnum :: "char \<Rightarrow> bool" where
  "isalnum c = (let n = code c in
     isalpha c \<or> isdigit c \<or> (188 \<le> n \<and> n \<le> 190))"

text \<open>
  \<^verbatim>\<open>str.upper\<close>, one character at a time. U+00DF becomes \<^verbatim>\<open>SS\<close>. U+00B5 and U+00FF
  have their capitals beyond U+00FF, where no keyword has its letters: they are left as
  they are, which decides the keyword lookup the same way.
\<close>

definition upper_char :: "char \<Rightarrow> string" where
  "upper_char c = (let n = code c in
     if 97 \<le> n \<and> n \<le> 122 then [char_of (n - 32)]
     else if n = 223 then ''SS''
     else if (224 \<le> n \<and> n \<le> 246) \<or> (248 \<le> n \<and> n \<le> 254) then [char_of (n - 32)]
     else [c])"

definition upper :: "string \<Rightarrow> string" where
  "upper s = concat (map upper_char s)"

section \<open>Tokens and the scanner\<close>

record Token =
  tok_type :: TokenType
  tok_value :: pyval
  tok_line :: int
  tok_column :: int

record Lexer =
  "text" :: string
  pos :: nat
  current_char :: "char option"
  line :: int
  column :: int

definition keywords' :: "string \<Rightarrow> TokenType option" where
  "keywords' = map_of [(''IF'', IF), (''THEN'', THEN), (''ELSE'', ELSE),
                      (''AND'', AND), (''OR'', OR), (''NOT'', NOT)]"

definition Lexer_init :: "string \<Rightarrow> Lexer" where
  "Lexer_init t =
     \<lparr>text = t, pos = 0, current_char = (if t \<noteq> [] then Some (t ! 0) else None),
      line = 1, column = 1\<rparr>"

definition lexer_error :: "Lexer \<Rightarrow> error" where
  "lexer_error lx = UnexpectedCharacter (current_char lx) (line lx) (column lx)"

definition advance :: "Lexer \<Rightarrow> Lexer" where
  "advance lx =
     (let lx1 = (if current_char lx = Some (CHR 0x0A)
                 then lx\<lparr>line := line lx + 1, column := 0\<rparr> else lx);
          lx2 = lx1\<lparr>pos := pos lx1 + 1\<rparr>;
          lx3 = lx2\<lparr>column := column lx2 + 1\<rparr>
      in lx3\<lparr>current_char :=
               (if pos lx3 < length (text lx3) then Some (text lx3 ! pos lx3) else None)\<rparr>)"

text \<open>What is left to scan: the measure of every loop of the scanner.\<close>

definition remaining :: "Lexer \<Rightarrow> nat" where
  "remaining lx =
     (case current_char lx of None \<Rightarrow> 0 | Some c \<Rightarrow> Suc (length (text lx) - pos lx))"

lemma remaining_advance: "current_char lx = Some c \<Longrightarrow> remaining (advance lx) < remaining lx"
  by (auto simp: remaining_def advance_def Let_def)

function skip_whitespace :: "Lexer \<Rightarrow> Lexer" where
  "skip_whitespace lx =
     (case current_char lx of
        Some c \<Rightarrow> if isspace c then skip_whitespace (advance lx) else lx
      | None \<Rightarrow> lx)"
  by pat_completeness auto
termination
  by (relation "measure remaining") (auto simp: remaining_advance)

declare skip_whitespace.simps [simp del]

text \<open>The \<^verbatim>\<open>while\<close> loop of \<^verbatim>\<open>Lexer.number\<close>, with \<^verbatim>\<open>result\<close> as accumulator.\<close>

function number_loop :: "Lexer \<Rightarrow> string \<Rightarrow> string \<times> Lexer" where
  "number_loop lx result =
     (case current_char lx of
        Some c \<Rightarrow>
          if isdigit c \<or> c = CHR ''.'' then number_loop (advance lx) (result @ [c])
          else (result, lx)
      | None \<Rightarrow> (result, lx))"
  by pat_completeness auto
termination
  by (relation "measure (\<lambda>(lx, result). remaining lx)") (auto simp: remaining_advance)

declare number_loop.simps [simp del]

definition number :: "Lexer \<Rightarrow> error + (Token \<times> Lexer)" where
  "number lx =
     (case number_loop lx [] of
        (result, lx') \<Rightarrow>
          (case py_float result of
             Inl e \<Rightarrow> Inl e
           | Inr v \<Rightarrow>
               Inr (\<lparr>tok_type = NUMBER, tok_value = PFloat v, tok_line = line lx',
                      tok_column = column lx' - int (length result)\<rparr>, lx')))"

text \<open>The \<^verbatim>\<open>while\<close> loop of \<^verbatim>\<open>Lexer._id\<close>.\<close>

function id_loop :: "Lexer \<Rightarrow> string \<Rightarrow> string \<times> Lexer" where
  "id_loop lx result =
     (case current_char lx of
        Some c \<Rightarrow>
          if isalnum c then id_loop (advance lx) (result @ [c])
          else (result, lx)
      | None \<Rightarrow> (result, lx))"
  by pat_completeness auto
termination
  by (relation "measure (\<lambda>(lx, result). remaining lx)") (auto simp: remaining_advance)

declare id_loop.simps [simp del]

text \<open>\<^verbatim>\<open>Lexer._id\<close>.\<close>

definition lexer_id :: "Lexer \<Rightarrow> error + (Token \<times> Lexer)" where
  "lexer_id lx =
     (case id_loop lx [] of
        (result, lx') \<Rightarrow>
          (case keywords' (upper result) of
             Some token_type \<Rightarrow>
               Inr (\<lparr>tok_type = token_type, tok_value = PStr (upper result), tok_line = line lx',
                      tok_column = column lx' - int (length result)\<rparr>, lx')
           | None \<Rightarrow> Inl (lexer_error lx')))"

text \<open>
  One of the ten single-character branches of \<^verbatim>\<open>get_next_token\<close>:
  \<^verbatim>\<open>self.advance(); return Token(ty, s, self.line, self.column - 1)\<close>.
\<close>

definition symbol_token :: "TokenType \<Rightarrow> string \<Rightarrow> Lexer \<Rightarrow> error + (Token \<times> Lexer)" where
  "symbol_token ty s lx =
     (let lx' = advance lx
      in Inr (\<lparr>tok_type = ty, tok_value = PStr s, tok_line = line lx',
                tok_column = column lx' - 1\<rparr>, lx'))"

lemma remaining_skip_whitespace: "remaining (skip_whitespace lx) \<le> remaining lx"
proof (induction lx rule: skip_whitespace.induct)
  case (1 lx)
  show ?case
  proof (cases "current_char lx")
    case None
    then show ?thesis by (simp add: skip_whitespace.simps)
  next
    case (Some c)
    show ?thesis
    proof (cases "isspace c")
      case True
      with Some 1 have "remaining (skip_whitespace (advance lx)) \<le> remaining (advance lx)"
        by simp
      moreover have "remaining (advance lx) < remaining lx"
        using Some by (rule remaining_advance)
      ultimately show ?thesis
        using Some True by (simp add: skip_whitespace.simps)
    next
      case False
      with Some show ?thesis by (simp add: skip_whitespace.simps)
    qed
  qed
qed

lemma remaining_skip_whitespace_less:
  "current_char lx = Some c \<Longrightarrow> isspace c \<Longrightarrow> remaining (skip_whitespace lx) < remaining lx"
proof -
  assume c: "current_char lx = Some c" and s: "isspace c"
  have "skip_whitespace lx = skip_whitespace (advance lx)"
    using c s by (simp add: skip_whitespace.simps)
  moreover have "remaining (skip_whitespace (advance lx)) \<le> remaining (advance lx)"
    by (rule remaining_skip_whitespace)
  moreover have "remaining (advance lx) < remaining lx"
    using c by (rule remaining_advance)
  ultimately show ?thesis by simp
qed

function get_next_token :: "Lexer \<Rightarrow> error + (Token \<times> Lexer)" where
  "get_next_token lx =
     (case current_char lx of
        None \<Rightarrow>
          Inr (\<lparr>tok_type = EOF, tok_value = PNone, tok_line = line lx, tok_column = column lx\<rparr>, lx)
      | Some c \<Rightarrow>
          if isspace c then get_next_token (skip_whitespace lx)
          else if isdigit c then number lx
          else if isalpha c then lexer_id lx
          else if c = CHR ''+'' then symbol_token PLUS ''+'' lx
          else if c = CHR ''-'' then symbol_token MINUS ''-'' lx
          else if c = CHR ''*'' then symbol_token MULTIPLY ''*'' lx
          else if c = CHR ''/'' then symbol_token DIVIDE ''/'' lx
          else if c = CHR ''^'' then symbol_token POWER ''^'' lx
          else if c = CHR ''%'' then symbol_token MODULO ''%'' lx
          else if c = CHR ''('' then symbol_token LPAREN ''('' lx
          else if c = CHR '')'' then symbol_token RPAREN '')'' lx
          else if c = CHR ''<'' then symbol_token LESS ''<'' lx
          else if c = CHR ''>'' then symbol_token GREATER ''>'' lx
          else Inl (lexer_error lx))"
  by pat_completeness auto
termination
  by (relation "measure remaining") (auto simp: remaining_skip_whitespace_less)

declare get_next_token.simps [simp del]

section \<open>The parser\<close>

record Parser =
  lexer :: Lexer
  current_token :: Token

definition Parser_init :: "Lexer \<Rightarrow> error + Parser" where
  "Parser_init lx =
     (case get_next_token lx of
        Inl e \<Rightarrow> Inl e
      | Inr (t, lx') \<Rightarrow> Inr \<lparr>lexer = lx', current_token = t\<rparr>)"

definition eat :: "TokenType \<Rightarrow> Parser \<Rightarrow> error + Parser" where
  "eat token_type p =
     (if tok_type (current_token p) = token_type
      then (case get_next_token (lexer p) of
              Inl e \<Rightarrow> Inl e
            | Inr (t, lx') \<Rightarrow> Inr (p\<lparr>lexer := lx', current_token := t\<rparr>))
      else Inl (UnexpectedToken token_type (tok_type (current_token p))))"


lemma isalpha_isalnum: "isalpha c \<Longrightarrow> isalnum c"
  by (simp add: isalnum_def Let_def)

lemma remaining_number_loop:
  "number_loop lx acc = (res, lx') \<Longrightarrow> remaining lx' \<le> remaining lx"
proof (induction lx acc rule: number_loop.induct)
  case (1 lx result)
  show ?case
  proof (cases "current_char lx")
    case None
    with 1 show ?thesis by (simp add: number_loop.simps)
  next
    case (Some c)
    show ?thesis
    proof (cases "isdigit c \<or> c = CHR ''.''")
      case True
      with Some 1 have "remaining lx' \<le> remaining (advance lx)"
        by (simp add: number_loop.simps)
      moreover have "remaining (advance lx) < remaining lx"
        using Some by (rule remaining_advance)
      ultimately show ?thesis by simp
    next
      case False
      with Some 1 show ?thesis by (simp add: number_loop.simps)
    qed
  qed
qed

lemma remaining_id_loop:
  "id_loop lx acc = (res, lx') \<Longrightarrow> remaining lx' \<le> remaining lx"
proof (induction lx acc rule: id_loop.induct)
  case (1 lx result)
  show ?case
  proof (cases "current_char lx")
    case None
    with 1 show ?thesis by (simp add: id_loop.simps)
  next
    case (Some c)
    show ?thesis
    proof (cases "isalnum c")
      case True
      with Some 1 have "remaining lx' \<le> remaining (advance lx)"
        by (simp add: id_loop.simps)
      moreover have "remaining (advance lx) < remaining lx"
        using Some by (rule remaining_advance)
      ultimately show ?thesis by simp
    next
      case False
      with Some 1 show ?thesis by (simp add: id_loop.simps)
    qed
  qed
qed

lemma remaining_number:
  assumes "current_char lx = Some c" and "isdigit c" and "number lx = Inr (t, lx')"
  shows "remaining lx' < remaining lx"
proof -
  obtain res l where nl: "number_loop lx [] = (res, l)"
    by (cases "number_loop lx []")
  with assms(3) have l: "l = lx'"
    by (auto simp: number_def split: sum.splits)
  have "number_loop lx [] = number_loop (advance lx) [c]"
    using assms(1,2) by (simp add: number_loop.simps)
  with nl l have "remaining lx' \<le> remaining (advance lx)"
    by (simp add: remaining_number_loop)
  moreover have "remaining (advance lx) < remaining lx"
    using assms(1) by (rule remaining_advance)
  ultimately show ?thesis by simp
qed

lemma remaining_lexer_id:
  assumes "current_char lx = Some c" and "isalpha c" and "lexer_id lx = Inr (t, lx')"
  shows "remaining lx' < remaining lx"
proof -
  obtain res l where nl: "id_loop lx [] = (res, l)"
    by (cases "id_loop lx []")
  with assms(3) have l: "l = lx'"
    by (auto simp: lexer_id_def split: option.splits)
  have "id_loop lx [] = id_loop (advance lx) [c]"
    using assms(1,2) by (simp add: id_loop.simps isalpha_isalnum)
  with nl l have "remaining lx' \<le> remaining (advance lx)"
    by (simp add: remaining_id_loop)
  moreover have "remaining (advance lx) < remaining lx"
    using assms(1) by (rule remaining_advance)
  ultimately show ?thesis by simp
qed

lemma remaining_symbol_token:
  "current_char lx = Some c \<Longrightarrow> symbol_token ty s lx = Inr (t, lx') \<Longrightarrow>
   remaining lx' < remaining lx"
  by (auto simp: symbol_token_def Let_def remaining_advance)

lemma symbol_token_not_EOF:
  "symbol_token ty s lx = Inr (t, lx') \<Longrightarrow> tok_type t = ty"
  by (auto simp: symbol_token_def Let_def)

lemma remaining_get_next_token:
  "get_next_token lx = Inr (t, lx') \<Longrightarrow>
   remaining lx' \<le> remaining lx \<and> (tok_type t \<noteq> EOF \<longrightarrow> remaining lx' < remaining lx)"
proof (induction lx rule: get_next_token.induct)
  case (1 lx)
  show ?case
  proof (cases "current_char lx")
    case None
    with 1(2) show ?thesis by (auto simp: get_next_token.simps)
  next
    case (Some c)
    show ?thesis
    proof (cases "isspace c")
      case True
      with Some 1(2) have "get_next_token (skip_whitespace lx) = Inr (t, lx')"
        by (simp add: get_next_token.simps)
      with 1(1) Some True have "remaining lx' \<le> remaining (skip_whitespace lx)"
        by simp
      moreover have "remaining (skip_whitespace lx) < remaining lx"
        using Some True by (rule remaining_skip_whitespace_less)
      ultimately show ?thesis by simp
    next
      case False
      have "remaining lx' < remaining lx"
        using 1(2) Some False
        by (auto simp: get_next_token.simps split: if_splits
            dest: remaining_number remaining_lexer_id remaining_symbol_token)
      then show ?thesis by simp
    qed
  qed
qed

text \<open>What is left to parse: the input still to scan, and the look-ahead token.\<close>

definition pending :: "Parser \<Rightarrow> nat" where
  "pending p = remaining (lexer p) + (if tok_type (current_token p) = EOF then 0 else 1)"

lemma pending_eat_le: "eat ty p = Inr p1 \<Longrightarrow> pending p1 \<le> pending p"
  by (auto simp: eat_def pending_def split: if_splits sum.splits dest: remaining_get_next_token)

lemma pending_eat_less: "eat ty p = Inr p1 \<Longrightarrow> ty \<noteq> EOF \<Longrightarrow> pending p1 < pending p"
  by (auto simp: eat_def pending_def split: if_splits sum.splits dest: remaining_get_next_token)

text \<open>
  The grammar functions. \<open>term'\<close> is \<^verbatim>\<open>Parser.term\<close> and \<open>term_loop\<close> its
  \<^verbatim>\<open>while\<close> loop, with \<^verbatim>\<open>result\<close> as accumulator. Each returns the value with the
  parser it leaves behind, or the error raised. Inside the loop the token is one of the
  three operators, so the last \<^verbatim>\<open>elif\<close> of the source is the \<open>else\<close> here. The depth
  of the recursion is not bounded, as if the host's call stack were.
\<close>

function factor :: "Parser \<Rightarrow> error + (pyval \<times> Parser)"
  and term' :: "Parser \<Rightarrow> error + (pyval \<times> Parser)"
  and term_loop :: "pyval \<Rightarrow> Parser \<Rightarrow> error + (pyval \<times> Parser)"
  and expression :: "Parser \<Rightarrow> error + (pyval \<times> Parser)"
where
  "factor p =
     (let token = current_token p
      in if tok_type token = NUMBER then
           (case eat NUMBER p of
              Inl e \<Rightarrow> Inl e
            | Inr p1 \<Rightarrow> Inr (tok_value token, p1))
         else if tok_type token = LPAREN then
           (case eat LPAREN p of
              Inl e \<Rightarrow> Inl e
            | Inr p1 \<Rightarrow>
                (case expression p1 of
                   Inl e \<Rightarrow> Inl e
                 | Inr (result, p2) \<Rightarrow>
                     (case eat RPAREN p2 of
                        Inl e \<Rightarrow> Inl e
                      | Inr p3 \<Rightarrow> Inr (result, p3))))
         else if tok_type token = NOT then
           (case eat NOT p of
              Inl e \<Rightarrow> Inl e
            | Inr p1 \<Rightarrow>
                (case factor p1 of
                   Inl e \<Rightarrow> Inl e
                 | Inr (v, p2) \<Rightarrow> Inr (py_not v, p2)))
         else if tok_type token = MINUS then
           (case eat MINUS p of
              Inl e \<Rightarrow> Inl e
            | Inr p1 \<Rightarrow>
                (case factor p1 of
                   Inl e \<Rightarrow> Inl e
                 | Inr (v, p2) \<Rightarrow>
                     (case py_neg v of
                        Inl e \<Rightarrow> Inl e
                      | Inr v' \<Rightarrow> Inr (v', p2))))
         else Inl InvalidFactor)"
| "term' p =
     (case factor p of
        Inl e \<Rightarrow> Inl e
      | Inr (result, p1) \<Rightarrow> term_loop result p1)"
| "term_loop result p =
     (let token = current_token p
      in if tok_type token \<in> {MULTIPLY, DIVIDE, MODULO} then
           if tok_type token = MULTIPLY then
             (case eat MULTIPLY p of
                Inl e \<Rightarrow> Inl e
              | Inr p1 \<Rightarrow>
                  (case factor p1 of
                     Inl e \<Rightarrow> Inl e
                   | Inr (v, p2) \<Rightarrow>
                       (case py_mul result v of
                          Inl e \<Rightarrow> Inl e
                        | Inr result' \<Rightarrow> term_loop result' p2)))
           else if tok_type token = DIVIDE then
             (case eat DIVIDE p of
                Inl e \<Rightarrow> Inl e
              | Inr p1 \<Rightarrow>
                  (case factor p1 of
                     Inl e \<Rightarrow> Inl e
                   | Inr (divisor, p2) \<Rightarrow>
                       if py_eq_zero divisor then Inl DivisionByZero
                       else (case py_truediv result divisor of
                               Inl e \<Rightarrow> Inl e
                             | Inr result' \<Rightarrow> term_loop result' p2)))
           else
             (case eat MODULO p of
                Inl e \<Rightarrow> Inl e
              | Inr p1 \<Rightarrow>
                  (case factor p1 of
                     Inl e \<Rightarrow> Inl e
                   | Inr (v, p2) \<Rightarrow>
                       (case py_mod result v of
                          Inl e \<Rightarrow> Inl e
                        | Inr result' \<Rightarrow> term_loop result' p2)))
         else Inr (result, p))"
| "expression p = term' p"
  by pat_completeness auto


text \<open>On its domain a grammar function never returns with more left to parse.\<close>

lemma pending_dom:
  "factor_term'_term_loop_expression_dom (Inl (Inl p)) \<Longrightarrow>
     (\<forall>v p'. factor p = Inr (v, p') \<longrightarrow> pending p' \<le> pending p)"
  "factor_term'_term_loop_expression_dom (Inl (Inr q)) \<Longrightarrow>
     (\<forall>v p'. term' q = Inr (v, p') \<longrightarrow> pending p' \<le> pending q)"
  "factor_term'_term_loop_expression_dom (Inr (Inl (r, s))) \<Longrightarrow>
     (\<forall>v p'. term_loop r s = Inr (v, p') \<longrightarrow> pending p' \<le> pending s)"
  "factor_term'_term_loop_expression_dom (Inr (Inr u)) \<Longrightarrow>
     (\<forall>v p'. expression u = Inr (v, p') \<longrightarrow> pending p' \<le> pending u)"
proof (induction rule: factor_term'_term_loop_expression.pinduct)
  case (1 p)
  note dom = 1(1)
  show ?case
  proof (intro allI impI)
    fix v p'
    assume r: "factor p = Inr (v, p')"
    let ?ty = "tok_type (current_token p)"
    consider (num) "?ty = NUMBER"
      | (lp) "?ty \<noteq> NUMBER" "?ty = LPAREN"
      | (nt) "?ty \<noteq> NUMBER" "?ty \<noteq> LPAREN" "?ty = NOT"
      | (mn) "?ty \<noteq> NUMBER" "?ty \<noteq> LPAREN" "?ty \<noteq> NOT" "?ty = MINUS"
      | (other) "?ty \<noteq> NUMBER" "?ty \<noteq> LPAREN" "?ty \<noteq> NOT" "?ty \<noteq> MINUS"
      by blast
    then show "pending p' \<le> pending p"
    proof cases
      case num
      with r dom have "eat NUMBER p = Inr p'"
        by (auto simp: factor.psimps Let_def split: sum.splits)
      then show ?thesis by (rule pending_eat_le)
    next
      case lp
      with r dom obtain p1 res p2 where e1: "eat LPAREN p = Inr p1"
        and e2: "expression p1 = Inr (res, p2)" and e3: "eat RPAREN p2 = Inr p'"
        by (auto simp: factor.psimps Let_def split: sum.splits prod.splits)
      from 1(2)[OF refl lp e1] e2 have "pending p2 \<le> pending p1" by blast
      moreover from e1 have "pending p1 \<le> pending p" by (rule pending_eat_le)
      moreover from e3 have "pending p' \<le> pending p2" by (rule pending_eat_le)
      ultimately show ?thesis by simp
    next
      case nt
      with r dom obtain p1 w where e1: "eat NOT p = Inr p1"
        and e2: "factor p1 = Inr (w, p')"
        by (auto simp: factor.psimps Let_def split: sum.splits prod.splits)
      from 1(3)[OF refl nt e1] e2 have "pending p' \<le> pending p1" by blast
      moreover from e1 have "pending p1 \<le> pending p" by (rule pending_eat_le)
      ultimately show ?thesis by simp
    next
      case mn
      with r dom obtain p1 w where e1: "eat MINUS p = Inr p1"
        and e2: "factor p1 = Inr (w, p')"
        by (auto simp: factor.psimps Let_def split: sum.splits prod.splits)
      from 1(4)[OF refl mn e1] e2 have "pending p' \<le> pending p1" by blast
      moreover from e1 have "pending p1 \<le> pending p" by (rule pending_eat_le)
      ultimately show ?thesis by simp
    next
      case other
      with r dom show ?thesis
        by (simp add: factor.psimps Let_def)
    qed
  qed
next
  case (2 p)
  note dom = 2(1)
  show ?case
  proof (intro allI impI)
    fix v p'
    assume r: "term' p = Inr (v, p')"
    with dom obtain res p1 where e1: "factor p = Inr (res, p1)"
      and e2: "term_loop res p1 = Inr (v, p')"
      by (auto simp: term'.psimps split: sum.splits prod.splits)
    from 2(2) e1 have "pending p1 \<le> pending p" by blast
    moreover from 2(3)[OF e1 refl] e2 have "pending p' \<le> pending p1" by blast
    ultimately show "pending p' \<le> pending p" by simp
  qed
next
  case (3 result p)
  note dom = 3(1)
  show ?case
  proof (intro allI impI)
    fix v p'
    assume r: "term_loop result p = Inr (v, p')"
    let ?ty = "tok_type (current_token p)"
    consider (mul) "?ty \<in> {MULTIPLY, DIVIDE, MODULO}" "?ty = MULTIPLY"
      | (dv) "?ty \<in> {MULTIPLY, DIVIDE, MODULO}" "?ty \<noteq> MULTIPLY" "?ty = DIVIDE"
      | (md) "?ty \<in> {MULTIPLY, DIVIDE, MODULO}" "?ty \<noteq> MULTIPLY" "?ty \<noteq> DIVIDE"
      | (other) "?ty \<notin> {MULTIPLY, DIVIDE, MODULO}"
      by blast
    then show "pending p' \<le> pending p"
    proof cases
      case mul
      with r dom obtain p1 w p2 res where e1: "eat MULTIPLY p = Inr p1"
        and e2: "factor p1 = Inr (w, p2)" and e3: "py_mul result w = Inr res"
        and e4: "term_loop res p2 = Inr (v, p')"
        by (auto simp: term_loop.psimps Let_def split: sum.splits prod.splits)
      from 3(2)[OF refl mul e1] e2 have "pending p2 \<le> pending p1" by blast
      moreover from e1 have "pending p1 \<le> pending p" by (rule pending_eat_le)
      moreover from 3(3)[OF refl mul e1 e2 refl e3] e4 have "pending p' \<le> pending p2" by blast
      ultimately show ?thesis by simp
    next
      case dv
      with r dom obtain p1 w p2 res where e1: "eat DIVIDE p = Inr p1"
        and e2: "factor p1 = Inr (w, p2)" and z: "\<not> py_eq_zero w"
        and e3: "py_truediv result w = Inr res"
        and e4: "term_loop res p2 = Inr (v, p')"
        by (auto simp: term_loop.psimps Let_def split: sum.splits prod.splits if_splits)
      from 3(4)[OF refl dv e1] e2 have "pending p2 \<le> pending p1" by blast
      moreover from e1 have "pending p1 \<le> pending p" by (rule pending_eat_le)
      moreover from 3(5)[OF refl dv e1 e2 refl z e3] e4 have "pending p' \<le> pending p2" by blast
      ultimately show ?thesis by simp
    next
      case md
      with r dom obtain p1 w p2 res where e1: "eat MODULO p = Inr p1"
        and e2: "factor p1 = Inr (w, p2)" and e3: "py_mod result w = Inr res"
        and e4: "term_loop res p2 = Inr (v, p')"
        by (auto simp: term_loop.psimps Let_def split: sum.splits prod.splits)
      from 3(6)[OF refl md e1] e2 have "pending p2 \<le> pending p1" by blast
      moreover from e1 have "pending p1 \<le> pending p" by (rule pending_eat_le)
      moreover from 3(7)[OF refl md e1 e2 refl e3] e4 have "pending p' \<le> pending p2" by blast
      ultimately show ?thesis by simp
    next
      case other
      with r dom show ?thesis
        by (simp add: term_loop.psimps Let_def)
    qed
  qed
next
  case (4 p)
  then show ?case
    by (simp add: expression.psimps)
qed


termination factor
proof (relation "measure (\<lambda>x. case x of
          Inl (Inl p) \<Rightarrow> 4 * pending p
        | Inl (Inr p) \<Rightarrow> 4 * pending p + 2
        | Inr (Inl (r, p)) \<Rightarrow> 4 * pending p + 1
        | Inr (Inr p) \<Rightarrow> 4 * pending p + 3)", goal_cases)
  case 1
  show ?case by simp
next
  case (2 p x b)
  then show ?case using pending_eat_less[of LPAREN p b] by simp
next
  case (3 p x b)
  then show ?case using pending_eat_less[of NOT p b] by simp
next
  case (4 p x b)
  then show ?case using pending_eat_less[of MINUS p b] by simp
next
  case (5 p)
  show ?case by simp
next
  case (6 p b x y)
  then show ?case using pending_dom(1)[of p] by auto
next
  case (7 result p x b)
  then show ?case using pending_eat_less[of MULTIPLY p b] by simp
next
  case (8 result p x b ba xa y bb)
  then show ?case
    using pending_eat_less[of MULTIPLY p b] pending_dom(1)[of b] by auto
next
  case (9 result p x b)
  then show ?case using pending_eat_less[of DIVIDE p b] by simp
next
  case (10 result p x b ba xa y bb)
  then show ?case
    using pending_eat_less[of DIVIDE p b] pending_dom(1)[of b] by auto
next
  case (11 result p x b)
  then show ?case using pending_eat_less[of MODULO p b] by simp
next
  case (12 result p x b ba xa y bb)
  then show ?case
    using pending_eat_less[of MODULO p b] pending_dom(1)[of b] by auto
next
  case (13 p)
  show ?case by simp
qed

declare factor.simps [simp del] term'.simps [simp del] term_loop.simps [simp del]

text \<open>\<^verbatim>\<open>Parser.parse\<close> and the entry point \<^verbatim>\<open>evaluate\<close>.\<close>

definition parse :: "Parser \<Rightarrow> error + (pyval \<times> Parser)" where
  "parse p = expression p"

definition evaluate :: "string \<Rightarrow> error + pyval" where
  "evaluate t =
     (case Parser_init (Lexer_init t) of
        Inl e \<Rightarrow> Inl e
      | Inr parser \<Rightarrow> (case parse parser of Inl e \<Rightarrow> Inl e | Inr (v, p') \<Rightarrow> Inr v))"

section \<open>The scanner's invariant\<close>

text \<open>
  \<^verbatim>\<open>Lexer.__init__\<close> and \<^verbatim>\<open>Lexer.advance\<close> keep \<^verbatim>\<open>current_char\<close> equal to the
  character under the cursor, or \<^verbatim>\<open>None\<close> past the end.
\<close>

definition consistent :: "Lexer \<Rightarrow> bool" where
  "consistent lx =
     (current_char lx = (if pos lx < length (text lx) then Some (text lx ! pos lx) else None))"

section \<open>Objects and calls\<close>

text \<open>
  In the source a \<^verbatim>\<open>Lexer\<close> and a \<^verbatim>\<open>Parser\<close> are objects, a parser holds a
  reference to its scanner, and \<^verbatim>\<open>evaluate\<close> creates one of each at every call. A
  \<open>World\<close> is what the calls of a run share: the objects created so far, each named by
  its index. The module has no variable of its own and the classes no attribute outside
  their instances, so there is nothing else that a call could read or write. A method
  works on the object that its reference names and stores the object's new state; when it
  raises, the object is kept as it was before the call (the exception leaves
  \<^verbatim>\<open>evaluate\<close>, which returns no reference to anything).
\<close>

record ParserObj =
  po_lexer :: nat
  po_current_token :: Token

record World =
  lexer_heap :: "Lexer list"
  parser_heap :: "ParserObj list"

text \<open>\<^verbatim>\<open>Lexer(text)\<close>: a new object, after all those there are.\<close>

definition new_Lexer :: "string \<Rightarrow> World \<Rightarrow> nat \<times> World" where
  "new_Lexer t w = (length (lexer_heap w), w\<lparr>lexer_heap := lexer_heap w @ [Lexer_init t]\<rparr>)"

text \<open>\<^verbatim>\<open>get_next_token\<close> called on the scanner that the reference \<open>a\<close> names.\<close>

definition lexer_get_next_token :: "nat \<Rightarrow> World \<Rightarrow> (error + Token) \<times> World" where
  "lexer_get_next_token a w =
     (case get_next_token (lexer_heap w ! a) of
        Inl e \<Rightarrow> (Inl e, w)
      | Inr (t, lx') \<Rightarrow> (Inr t, w\<lparr>lexer_heap := (lexer_heap w)[a := lx']\<rparr>))"

text \<open>
  \<^verbatim>\<open>Parser(lexer)\<close>: the new object keeps the reference to the scanner and the first
  token, read from that scanner.
\<close>

definition new_Parser :: "nat \<Rightarrow> World \<Rightarrow> (error + nat) \<times> World" where
  "new_Parser a w =
     (case lexer_get_next_token a w of
        (Inl e, w') \<Rightarrow> (Inl e, w')
      | (Inr t, w') \<Rightarrow>
          (Inr (length (parser_heap w')),
           w'\<lparr>parser_heap := parser_heap w' @ [\<lparr>po_lexer = a, po_current_token = t\<rparr>]\<rparr>))"

text \<open>The parser behind a reference, with the scanner it refers to.\<close>

definition parser_state :: "World \<Rightarrow> nat \<Rightarrow> Parser" where
  "parser_state w a =
     \<lparr>lexer = lexer_heap w ! po_lexer (parser_heap w ! a),
      current_token = po_current_token (parser_heap w ! a)\<rparr>"

text \<open>\<^verbatim>\<open>parser.parse()\<close>: both objects are left in the state the parse ends in.\<close>

definition parser_parse :: "nat \<Rightarrow> World \<Rightarrow> (error + pyval) \<times> World" where
  "parser_parse a w =
     (case parse (parser_state w a) of
        Inl e \<Rightarrow> (Inl e, w)
      | Inr (v, p') \<Rightarrow>
          (Inr v,
           w\<lparr>lexer_heap := (lexer_heap w)[po_lexer (parser_heap w ! a) := lexer p'],
             parser_heap := (parser_heap w)[a := (parser_heap w ! a)\<lparr>po_current_token := current_token p'\<rparr>]\<rparr>))"

text \<open>\<^verbatim>\<open>evaluate(text)\<close>, called in the world \<open>w\<close>.\<close>

definition evaluate_in :: "World \<Rightarrow> string \<Rightarrow> (error + pyval) \<times> World" where
  "evaluate_in w t =
     (case new_Lexer t w of
        (lexer_ref, w1) \<Rightarrow>
          (case new_Parser lexer_ref w1 of
             (Inl e, w2) \<Rightarrow> (Inl e, w2)
           | (Inr parser_ref, w2) \<Rightarrow> parser_parse parser_ref w2))"

section \<open>Properties\<close>

subsection \<open>Addition is scanned and never parsed\<close>

text \<open>
  C1. For the input \<^verbatim>\<open>2+3\<close>, \<open>evaluate\<close> does not fail and does not return \<open>5.0\<close>: it
  returns \<open>2.0\<close>. The loop of \<open>term'\<close> stops at the \<open>PLUS\<close> token, which stays the
  parser's current token, and nothing checks that the input is used up: the scanner still
  stands on the \<^verbatim>\<open>3\<close>.
\<close>

theorem evaluate_plus_ignored:
  "evaluate ''2+3'' = Inr (PFloat (Fin False 1 1)) \<and>
   evaluate ''2+3'' \<noteq> Inr (PFloat (Fin False 5 0)) \<and>
   (case Parser_init (Lexer_init ''2+3'') of
      Inl e \<Rightarrow> False
    | Inr p \<Rightarrow>
        (case parse p of
           Inl e \<Rightarrow> False
         | Inr (v, p') \<Rightarrow>
             v = PFloat (Fin False 1 1) \<and> tok_type (current_token p') = PLUS \<and>
             pos (lexer p') = 2 \<and> current_char (lexer p') = Some CHR ''3'')) \<and>
   float_is (Fin False 1 1) 2 1 \<and> float_is (Fin False 5 0) 5 1"
  by code_simp

text \<open>The loop of \<open>term'\<close> returns at any token that is not one of its three operators.\<close>

lemma term_loop_stops:
  "tok_type (current_token p) \<notin> {MULTIPLY, DIVIDE, MODULO} \<Longrightarrow>
   term_loop result p = Inr (result, p)"
  by (simp add: term_loop.simps[of result p] Let_def)

subsection \<open>The sign of a remainder\<close>

lemma strip_props:
  "0 \<le> n \<Longrightarrow> strip n t = (m, e') \<Longrightarrow>
   0 \<le> m \<and> (n = 0 \<longrightarrow> m = 0) \<and>
   (n \<noteq> 0 \<longrightarrow> m \<noteq> 0 \<and> t \<le> e' \<and> m * 2 ^ nat (e' - t) = n)"
proof (induction n t rule: strip.induct)
  case (1 n t)
  show ?case
  proof (cases "n = 0")
    case True
    with 1(3) show ?thesis by (simp add: strip.simps)
  next
    case nz: False
    show ?thesis
    proof (cases "even n")
      case False
      with nz 1(2,3) show ?thesis by (simp add: strip.simps[of n t])
    next
      case True
      with nz 1(3) have s: "strip (n div 2) (t + 1) = (m, e')"
        by (simp add: strip.simps[of n t])
      from True nz 1(2) have h: "0 \<le> n div 2" "n div 2 \<noteq> 0" "2 * (n div 2) = n"
        by auto
      from 1(1)[OF nz True h(1) s] h(2)
      have ih: "0 \<le> m" "m \<noteq> 0" "t + 1 \<le> e'" "m * 2 ^ nat (e' - (t + 1)) = n div 2"
        by auto
      from ih(3) have "nat (e' - t) = Suc (nat (e' - (t + 1)))" by simp
      then have "m * 2 ^ nat (e' - t) = 2 * (m * 2 ^ nat (e' - (t + 1)))" by simp
      with ih(4) h(3) have "m * 2 ^ nat (e' - t) = n" by simp
      with ih nz show ?thesis by simp
    qed
  qed
qed

lemma round_ratio_sign:
  "sign_bit (round_ratio s a b e) = s \<and> round_ratio s a b e \<noteq> NaN"
  by (auto simp: round_ratio_def Let_def split: prod.splits)

text \<open>Adding a divisor to a remainder of the other sign and of smaller magnitude.\<close>

lemma fadd_smaller_opposite:
  assumes "0 < x" and "x * 2 ^ nat (e1 - t0) < int m2 * 2 ^ nat (e2 - t0)"
    and "t0 \<le> e1" and "t0 \<le> e2" and "s1 \<noteq> s2"
  shows "sign_bit (fadd (Fin s1 (nat x) e1) (Fin s2 m2 e2)) = s2 \<and>
         fadd (Fin s1 (nat x) e1) (Fin s2 m2 e2) \<noteq> NaN"
proof -
  define em where "em = min e1 e2"
  define X where "X = x * 2 ^ nat (e1 - em)"
  define Y where "Y = int m2 * 2 ^ nat (e2 - em)"
  have em: "t0 \<le> em" "em \<le> e1" "em \<le> e2"
    using assms(3,4) by (simp_all add: em_def)
  have "nat (e1 - t0) = nat (e1 - em) + nat (em - t0)"
    using em by simp
  then have X: "x * 2 ^ nat (e1 - t0) = X * 2 ^ nat (em - t0)"
    by (simp add: X_def power_add)
  have "nat (e2 - t0) = nat (e2 - em) + nat (em - t0)"
    using em by simp
  then have Y: "int m2 * 2 ^ nat (e2 - t0) = Y * 2 ^ nat (em - t0)"
    by (simp add: Y_def power_add)
  from assms(2) X Y have "X * 2 ^ nat (em - t0) < Y * 2 ^ nat (em - t0)"
    by simp
  then have lt: "X < Y"
    by (simp add: mult_less_cancel_right)
  have X0: "0 < X"
    using assms(1) by (simp add: X_def)
  define tt where "tt = signed_mant s1 X + signed_mant s2 Y"
  have tt: "tt \<noteq> 0" "(tt < 0) = s2"
    using lt X0 assms(5) by (auto simp: tt_def signed_mant_def)
  have "fadd (Fin s1 (nat x) e1) (Fin s2 m2 e2) = round_ratio (tt < 0) \<bar>tt\<bar> 1 em"
    using tt(1) assms(1) by (simp add: Let_def tt_def X_def Y_def em_def)
  with tt(2) show ?thesis
    by (simp add: round_ratio_sign)
qed

lemma float_rem_finite:
  assumes "\<not> is_zero b" and "b \<noteq> NaN"
  shows "\<exists>r. float_rem (Fin s m e) b = Inr r \<and> r \<noteq> NaN \<and> sign_bit r = sign_bit b"
proof (cases b)
  case NaN
  with assms(2) show ?thesis by simp
next
  case (Inf s2)
  then show ?thesis
    by (auto simp: float_rem_def Let_def)
next
  case (Fin s2 m2 e2)
  with assms(1) have m2: "m2 \<noteq> 0" by simp
  define t0 where "t0 = min e e2"
  define B where "B = int m2 * 2 ^ nat (e2 - t0)"
  define R where "R = (int m * 2 ^ nat (e - t0)) mod B"
  obtain m' e' where st: "strip R t0 = (m', e')"
    by (cases "strip R t0")
  have B0: "0 < B" using m2 by (simp add: B_def)
  then have R: "0 \<le> R" "R < B" by (simp_all add: R_def)
  have md: "fmod (Fin s m e) b = Fin s (nat m') e'"
    using Fin m2 st by (simp add: Let_def t0_def B_def R_def)
  from strip_props[OF R(1) st]
  have sp: "0 \<le> m'" "R = 0 \<longrightarrow> m' = 0"
    "R \<noteq> 0 \<longrightarrow> m' \<noteq> 0 \<and> t0 \<le> e' \<and> m' * 2 ^ nat (e' - t0) = R"
    by auto
  show ?thesis
  proof (cases "R = 0")
    case True
    with sp md Fin m2 show ?thesis
      by (simp add: float_rem_def Let_def)
  next
    case False
    with sp have m': "0 < m'" "t0 \<le> e'" "m' * 2 ^ nat (e' - t0) = R" by auto
    show ?thesis
    proof (cases "s = s2")
      case True
      with md Fin m2 m' show ?thesis
        by (simp add: float_rem_def Let_def)
    next
      case ne: False
      have "m' * 2 ^ nat (e' - t0) < int m2 * 2 ^ nat (e2 - t0)"
        using m'(3) R(2) by (simp add: B_def)
      from fadd_smaller_opposite[OF m'(1) this m'(2) _ ne]
      have "sign_bit (fadd (Fin s (nat m') e') (Fin s2 m2 e2)) = s2 \<and>
            fadd (Fin s (nat m') e') (Fin s2 m2 e2) \<noteq> NaN"
        by (simp add: t0_def)
      with md Fin m2 m' ne show ?thesis
        by (simp add: float_rem_def Let_def)
    qed
  qed
qed

lemma float_rem_NaN:
  assumes "\<not> is_zero b" and "\<not> is_finite a \<or> b = NaN"
  shows "float_rem a b = Inr NaN"
proof -
  from assms(2) have "fmod a b = NaN"
    by (cases a; cases b) auto
  with assms(1) show ?thesis
    by (cases b) (auto simp: float_rem_def Let_def)
qed

lemma float_rem_sign:
  assumes "\<not> is_zero b"
  shows "\<exists>r. float_rem a b = Inr r \<and>
             (r = NaN \<longleftrightarrow> \<not> is_finite a \<or> b = NaN) \<and>
             (r \<noteq> NaN \<longrightarrow> sign_bit r = sign_bit b)"
proof (cases "\<not> is_finite a \<or> b = NaN")
  case True
  with float_rem_NaN[OF assms True] show ?thesis by simp
next
  case False
  then obtain s m e where a: "a = Fin s m e" and b: "b \<noteq> NaN"
    by (cases a) auto
  from float_rem_finite[OF assms b, of s m e] a False show ?thesis
    by auto
qed

text \<open>
  C2, as the code has it. For every term \<open>a MODULO b\<close> on floats with \<open>b\<close> nonzero, the
  loop goes on with the remainder \<open>r\<close> of Python's \<^verbatim>\<open>%\<close>: \<open>r\<close> is a number exactly when
  \<open>a\<close> is finite and \<open>b\<close> is a number, and then \<open>r\<close> has the sign of the divisor \<open>b\<close>
  (the floored remainder), not that of the dividend.
\<close>

theorem modulo_sign_follows_divisor:
  assumes "tok_type (current_token p) = MODULO"
    and "eat MODULO p = Inr p1"
    and "factor p1 = Inr (PFloat b, p2)"
    and "\<not> is_zero b"
  shows "\<exists>r. py_mod (PFloat a) (PFloat b) = Inr (PFloat r) \<and>
             term_loop (PFloat a) p = term_loop (PFloat r) p2 \<and>
             (r = NaN \<longleftrightarrow> \<not> is_finite a \<or> b = NaN) \<and>
             (r \<noteq> NaN \<longrightarrow> sign_bit r = sign_bit b)"
proof -
  from float_rem_sign[OF assms(4), of a] obtain r where
    r: "float_rem a b = Inr r" "r = NaN \<longleftrightarrow> \<not> is_finite a \<or> b = NaN"
      "r \<noteq> NaN \<longrightarrow> sign_bit r = sign_bit b"
    by blast
  then have pm: "py_mod (PFloat a) (PFloat b) = Inr (PFloat r)"
    by (simp add: py_mod_def float_op_def)
  with assms(1-3) have "term_loop (PFloat a) p = term_loop (PFloat r) p2"
    by (simp add: term_loop.simps[of "PFloat a" p] Let_def)
  with pm r show ?thesis by blast
qed

text \<open>
  The theorem at \<^verbatim>\<open>-10%3\<close>: the parser stands on \<^verbatim>\<open>%3\<close> with \<open>-10.0\<close> as result, and
  goes on with \<open>2.0\<close>, which has the sign of \<open>3.0\<close>.
\<close>

theorem modulo_sign_follows_divisor_witness:
  "tok_type (current_token (projr (Parser_init (Lexer_init ''%3'')))) = MODULO \<and>
   term_loop (PFloat (Fin True 5 1)) (projr (Parser_init (Lexer_init ''%3''))) =
     term_loop (PFloat (Fin False 1 1))
       (snd (projr (factor (projr (eat MODULO (projr (Parser_init (Lexer_init ''%3''))))))))
   \<and> sign_bit (Fin False 1 1) = sign_bit (Fin False 3 0) \<and>
   evaluate ''-10%3'' = Inr (PFloat (Fin False 1 1))"
proof -
  let ?p = "projr (Parser_init (Lexer_init ''%3''))"
  let ?p1 = "projr (eat MODULO ?p)"
  let ?p2 = "snd (projr (factor ?p1))"
  have h1: "tok_type (current_token ?p) = MODULO" by code_simp
  have h2: "eat MODULO ?p = Inr ?p1" by code_simp
  have h3: "factor ?p1 = Inr (PFloat (Fin False 3 0), ?p2)" by code_simp
  have h4: "\<not> is_zero (Fin False 3 0)" by simp
  have a: "py_mod (PFloat (Fin True 5 1)) (PFloat (Fin False 3 0)) = Inr (PFloat (Fin False 1 1))"
    by code_simp
  have e: "evaluate ''-10%3'' = Inr (PFloat (Fin False 1 1))" by code_simp
  from modulo_sign_follows_divisor[OF h1 h2 h3 h4, of "Fin True 5 1"] a
  have "term_loop (PFloat (Fin True 5 1)) ?p = term_loop (PFloat (Fin False 1 1)) ?p2"
    by auto
  with h1 e show ?thesis by simp
qed

text \<open>
  The specification's sentence (the sign of the dividend) fails at \<^verbatim>\<open>-10%3\<close>: the
  dividend is \<open>-10.0\<close> and the
  result is \<open>+2.0\<close>.
\<close>

theorem modulo_sign_counterexample:
  "evaluate ''-10%3'' = Inr (PFloat (Fin False 1 1)) \<and>
   evaluate ''-10'' = Inr (PFloat (Fin True 5 1)) \<and>
   evaluate ''3'' = Inr (PFloat (Fin False 3 0)) \<and>
   sign_bit (Fin False 1 1) \<noteq> sign_bit (Fin True 5 1) \<and>
   sign_bit (Fin False 1 1) = sign_bit (Fin False 3 0) \<and>
   float_is (Fin False 1 1) 2 1 \<and> float_is (Fin True 5 1) (- 10) 1 \<and>
   float_is (Fin False 3 0) 3 1"
  by code_simp

subsection \<open>Division by zero\<close>

text \<open>
  C3. Whenever the right operand of a \<open>DIVIDE\<close> evaluates to zero, the term fails with
  \<open>DivisionByZero\<close>: the operand has been evaluated by \<open>factor\<close>, and no division is
  performed (whatever \<open>result\<close> is).
\<close>

theorem divide_by_zero:
  assumes "tok_type (current_token p) = DIVIDE"
    and "eat DIVIDE p = Inr p1"
    and "factor p1 = Inr (divisor, p2)"
    and "py_eq_zero divisor"
  shows "term_loop result p = Inl DivisionByZero"
  using assms by (simp add: term_loop.simps[of result p] Let_def)

theorem divide_by_zero_witness:
  "term_loop (PFloat (Fin False 5 0)) (projr (Parser_init (Lexer_init ''/0''))) =
     Inl DivisionByZero \<and>
   evaluate ''5/0'' = Inl DivisionByZero"
proof -
  let ?p = "projr (Parser_init (Lexer_init ''/0''))"
  let ?p1 = "projr (eat DIVIDE ?p)"
  let ?p2 = "snd (projr (factor ?p1))"
  have h1: "tok_type (current_token ?p) = DIVIDE" by code_simp
  have h2: "eat DIVIDE ?p = Inr ?p1" by code_simp
  have h3: "factor ?p1 = Inr (PFloat (Fin False 0 0), ?p2)" by code_simp
  have h4: "py_eq_zero (PFloat (Fin False 0 0))" by simp
  have e: "evaluate ''5/0'' = Inl DivisionByZero" by code_simp
  from divide_by_zero[OF h1 h2 h3 h4] e show ?thesis by simp
qed

text \<open>An operand that fails is reported before the division is looked at.\<close>

lemma divide_operand_error_first:
  assumes "tok_type (current_token p) = DIVIDE"
    and "eat DIVIDE p = Inr p1"
    and "factor p1 = Inl e"
  shows "term_loop result p = Inl e"
  using assms by (simp add: term_loop.simps[of result p] Let_def)

subsection \<open>The multiplicative operators\<close>

text \<open>
  The float operations are the exact ones wherever the exact result is a float: a product
  or a quotient of at most 53 bits in the exponent range is not rounded, and a remainder
  of operands of one sign is the remainder of their aligned mantissas.
\<close>

lemma bitlen_nonneg: "0 \<le> bitlen a"
proof (induction a rule: bitlen.induct)
  case (1 n)
  then show ?case by (subst bitlen.simps) auto
qed

lemma bitlen_pos: "0 < a \<Longrightarrow> 0 < bitlen a"
  using bitlen_nonneg[of "a div 2"] by (subst bitlen.simps) simp

lemma bitlen_bounds:
  "0 < a \<Longrightarrow> 2 ^ nat (bitlen a - 1) \<le> a \<and> a < 2 ^ nat (bitlen a)"
proof (induction a rule: bitlen.induct)
  case (1 n)
  show ?case
  proof (cases "n = 1")
    case True
    then show ?thesis
      by (simp add: bitlen.simps[of 1] bitlen.simps[of 0])
  next
    case False
    with 1(2) have h: "0 < n div 2" "\<not> n \<le> 0" by auto
    from 1(1)[OF h(2) h(1)]
    have ih: "2 ^ nat (bitlen (n div 2) - 1) \<le> n div 2" "n div 2 < 2 ^ nat (bitlen (n div 2))"
      by auto
    have b: "bitlen n = 1 + bitlen (n div 2)"
      using h(2) by (subst bitlen.simps) simp
    have p: "0 < bitlen (n div 2)" using h(1) by (rule bitlen_pos)
    then have e1: "nat (bitlen n - 1) = Suc (nat (bitlen (n div 2) - 1))"
      using b by simp
    have e2: "nat (bitlen n) = Suc (nat (bitlen (n div 2)))"
      using b p by simp
    from ih show ?thesis
      unfolding e1 e2 by auto
  qed
qed

lemma floor_log2_one: "0 < a \<Longrightarrow> floor_log2 a 1 = bitlen a - 1"
  using bitlen_bounds[of a] bitlen_pos[of a]
  by (simp add: floor_log2_def Let_def bitlen.simps[of 1] bitlen.simps[of 0])

lemma round_half_even_one: "round_half_even x 1 = x"
  by (simp add: round_half_even_def)

lemma strip_shift: "a \<noteq> 0 \<Longrightarrow> strip (a * 2 ^ k) t = strip a (t + int k)"
proof (induction k arbitrary: t)
  case 0
  then show ?case by simp
next
  case (Suc k)
  have "strip (a * 2 ^ Suc k) t = strip (a * 2 ^ k) (t + 1)"
    using Suc(2) by (subst strip.simps) simp
  also have "\<dots> = strip a (t + 1 + int k)"
    using Suc by simp
  finally show ?case by (simp add: add.assoc)
qed

text \<open>A value of at most 53 bits in the exponent range is not rounded.\<close>

lemma round_ratio_exact:
  assumes "0 < a" and "bitlen a \<le> 53" and "- 1074 \<le> e" and "bitlen a + e \<le> 1024"
  shows "round_ratio s a 1 e = (case strip a e of (m, e') \<Rightarrow> Fin s (nat m) e')"
proof -
  define t where "t = max (bitlen a - 1 + e - 52) (- 1074)"
  define k where "k = nat (e - t)"
  have t: "t \<le> e" "t \<le> 971"
    using assms by (auto simp: t_def)
  have n: "round_half_even (a * 2 ^ k) 1 = a * 2 ^ k"
    by (rule round_half_even_one)
  have lt: "t = 971 \<longrightarrow> a * 2 ^ k < 2 ^ 53"
  proof
    assume "t = 971"
    then have "e - t = 53 - bitlen a" by (auto simp: t_def)
    then have "nat (bitlen a) + k = 53"
      using bitlen_nonneg[of a] t by (simp add: k_def)
    then have "(2::int) ^ 53 = 2 ^ nat (bitlen a) * 2 ^ k"
      by (simp add: power_add[symmetric])
    moreover have "a * 2 ^ k < 2 ^ nat (bitlen a) * 2 ^ k"
      using bitlen_bounds[OF assms(1)] by simp
    ultimately show "a * 2 ^ k < 2 ^ 53" by simp
  qed
  have "strip (a * 2 ^ k) t = strip a (t + int k)"
    using assms(1) by (simp add: strip_shift)
  also have "t + int k = e" using t by (simp add: k_def)
  finally have st: "strip (a * 2 ^ k) t = strip a e" .
  have "round_ratio s a 1 e =
          (if 971 < t \<or> (t = 971 \<and> a * 2 ^ k = 2 ^ 53) then Inf s
           else case strip (a * 2 ^ k) t of (m, e') \<Rightarrow> Fin s (nat m) e')"
    using assms(1) t(1)
    by (auto simp: round_ratio_def Let_def floor_log2_one round_half_even_one t_def k_def)
  also have "\<dots> = (case strip (a * 2 ^ k) t of (m, e') \<Rightarrow> Fin s (nat m) e')"
    using t(2) lt by auto
  finally show ?thesis by (simp only: st)
qed

lemma fmul_exact:
  assumes "m1 \<noteq> 0" and "m2 \<noteq> 0" and "bitlen (int m1 * int m2) \<le> 53"
    and "- 1074 \<le> e1 + e2" and "bitlen (int m1 * int m2) + (e1 + e2) \<le> 1024"
  shows "fmul (Fin s1 m1 e1) (Fin s2 m2 e2) =
           (case strip (int m1 * int m2) (e1 + e2) of (m, e') \<Rightarrow> Fin (s1 \<noteq> s2) (nat m) e')"
proof -
  from assms(1,2) have "0 < int m1 * int m2" by simp
  from round_ratio_exact[OF this assms(3-5)] show ?thesis by simp
qed

lemma pow2_le_lt_exp:
  assumes "(2::int) ^ i \<le> x" and "x < 2 ^ j"
  shows "i < j"
proof -
  from assms have "(2::int) ^ i < 2 ^ j" by (rule le_less_trans)
  then show ?thesis by simp
qed

lemma floor_log2_multiple:
  assumes "0 < q" and "0 < b"
  shows "floor_log2 (q * b) b = bitlen q - 1"
proof -
  define L where "L = nat (bitlen q - 1)"
  define lb where "lb = nat (bitlen b)"
  define la where "la = nat (bitlen (q * b))"
  have qb: "0 < q * b" using assms by simp
  have bq: "bitlen q = int L + 1"
    using bitlen_pos[OF assms(1)] by (simp add: L_def)
  have bb: "bitlen b = int lb" "0 < lb"
    using bitlen_pos[OF assms(2)] by (simp_all add: lb_def)
  have ba: "bitlen (q * b) = int la" "0 < la"
    using bitlen_pos[OF qb] by (simp_all add: la_def)
  have nq: "nat (bitlen q - 1) = L" "nat (bitlen q) = Suc L"
    using bitlen_pos[OF assms(1)] by (simp_all add: L_def)
  have nb: "nat (bitlen b - 1) = lb - 1" "nat (bitlen b) = lb"
    using bitlen_pos[OF assms(2)] by (simp_all add: lb_def nat_diff_distrib)
  have na: "nat (bitlen (q * b) - 1) = la - 1" "nat (bitlen (q * b)) = la"
    using bitlen_pos[OF qb] by (simp_all add: la_def nat_diff_distrib)
  have q: "2 ^ L \<le> q" "q < 2 ^ Suc L"
    using bitlen_bounds[OF assms(1)] unfolding nq by blast+
  have b: "2 ^ (lb - 1) \<le> b" "b < 2 ^ lb"
    using bitlen_bounds[OF assms(2)] unfolding nb by blast+
  have a: "2 ^ (la - 1) \<le> q * b" "q * b < 2 ^ la"
    using bitlen_bounds[OF qb] unfolding na by blast+
  have "(2::int) ^ (L + (lb - 1)) = 2 ^ L * 2 ^ (lb - 1)"
    by (simp add: power_add)
  also have "\<dots> \<le> q * b"
    using q(1) b(1) assms by (intro mult_mono) simp_all
  finally have "L + (lb - 1) < la"
    using a(2) by (rule pow2_le_lt_exp)
  then have lo: "L + lb \<le> la" using bb(2) by simp
  have "q * b < 2 ^ Suc L * 2 ^ lb"
    using q(2) b(2) assms by (intro mult_strict_mono) simp_all
  then have "q * b < 2 ^ (Suc L + lb)"
    by (simp add: power_add)
  with a(1) have "la - 1 < Suc L + lb"
    by (rule pow2_le_lt_exp)
  then have hi: "la \<le> L + lb + 1" by simp
  from lo hi consider (eq) "la = L + lb" | (up) "la = L + lb + 1" by linarith
  then show ?thesis
  proof cases
    case eq
    then have d: "bitlen (q * b) - bitlen b = int L"
      using ba bb by simp
    have "b * 2 ^ L \<le> q * b"
      using q(1) assms(2) by (simp add: mult.commute)
    then show ?thesis
      using d bq by (simp add: floor_log2_def Let_def)
  next
    case up
    then have d: "bitlen (q * b) - bitlen b = int (Suc L)"
      using ba bb by simp
    have "\<not> b * 2 ^ Suc L \<le> q * b"
    proof
      assume "b * 2 ^ Suc L \<le> q * b"
      then have "2 ^ Suc L * b \<le> q * b" by (simp add: mult.commute)
      then have "2 ^ Suc L \<le> q" using assms(2) by (simp add: mult_le_cancel_right)
      with q(2) show False by simp
    qed
    moreover have "nat (1 + int L) = Suc L" by simp
    ultimately show ?thesis
      using d bq by (simp add: floor_log2_def Let_def del: power_Suc)
  qed
qed

lemma round_ratio_multiple:
  assumes "0 < q" and "0 < b" and "bitlen q \<le> 53" and "- 1074 \<le> e"
  shows "round_ratio s (q * b) b e = round_ratio s q 1 e"
proof -
  define t where "t = max (bitlen q - 1 + e - 52) (- 1074)"
  have t: "t \<le> e" using assms by (auto simp: t_def)
  have "round_half_even (q * b * 2 ^ nat (e - t)) b = q * 2 ^ nat (e - t)"
    using assms(2) by (simp add: round_half_even_def mult.assoc mult.left_commute[of b])
  then show ?thesis
    using assms(1,2) t
    by (auto simp: round_ratio_def Let_def floor_log2_multiple floor_log2_one
        round_half_even_one t_def)
qed

text \<open>A quotient of at most 53 bits in the exponent range is not rounded.\<close>

lemma fdiv_exact:
  assumes "m2 \<noteq> 0" and "0 < q" and "int m1 = q * int m2" and "bitlen q \<le> 53"
    and "- 1074 \<le> e1 - e2" and "bitlen q + (e1 - e2) \<le> 1024"
  shows "fdiv (Fin s1 m1 e1) (Fin s2 m2 e2) =
           (case strip q (e1 - e2) of (m, e') \<Rightarrow> Fin (s1 \<noteq> s2) (nat m) e')"
proof -
  from assms(1) have b: "0 < int m2" by simp
  have "fdiv (Fin s1 m1 e1) (Fin s2 m2 e2) = round_ratio (s1 \<noteq> s2) (q * int m2) (int m2) (e1 - e2)"
    using assms(1,3) by simp
  also have "\<dots> = round_ratio (s1 \<noteq> s2) q 1 (e1 - e2)"
    using assms(2) b assms(4,5) by (rule round_ratio_multiple)
  also have "\<dots> = (case strip q (e1 - e2) of (m, e') \<Rightarrow> Fin (s1 \<noteq> s2) (nat m) e')"
    using assms(2,4,5,6) by (rule round_ratio_exact)
  finally show ?thesis .
qed

lemma float_rem_same_sign:
  assumes "m2 \<noteq> 0"
  shows "float_rem (Fin s m1 e1) (Fin s m2 e2) =
           Inr (case strip ((int m1 * 2 ^ nat (e1 - min e1 e2)) mod
                            (int m2 * 2 ^ nat (e2 - min e1 e2))) (min e1 e2) of
                  (m, e') \<Rightarrow> Fin s (nat m) e')"
proof -
  define R where "R = (int m1 * 2 ^ nat (e1 - min e1 e2)) mod (int m2 * 2 ^ nat (e2 - min e1 e2))"
  obtain m e' where st: "strip R (min e1 e2) = (m, e')"
    by (cases "strip R (min e1 e2)")
  have "0 < int m2 * 2 ^ nat (e2 - min e1 e2)"
    using assms by simp
  then have "0 \<le> R" by (simp add: R_def)
  from strip_props[OF this st] have "R = 0 \<longrightarrow> m = 0" "R \<noteq> 0 \<longrightarrow> 0 < m"
    by auto
  moreover have "R = 0 \<longrightarrow> e' = 0"
    using st by (auto simp: strip.simps[of 0])
  ultimately show ?thesis
    using assms st by (cases "R = 0") (auto simp: float_rem_def Let_def R_def)
qed

text \<open>
  Two operators in a row: \<open>a * b / c\<close> is \<open>(a * b) / c\<close>, the quotient of the product.
\<close>

lemma term_loop_left_assoc:
  assumes "tok_type (current_token p) = MULTIPLY"
    and "eat MULTIPLY p = Inr p1"
    and "factor p1 = Inr (PFloat b, p2)"
    and "tok_type (current_token p2) = DIVIDE"
    and "eat DIVIDE p2 = Inr p3"
    and "factor p3 = Inr (PFloat c, p4)"
    and "\<not> is_zero c"
  shows "term_loop (PFloat a) p = term_loop (PFloat (fdiv (fmul a b) c)) p4"
proof -
  from assms(1-3) have "term_loop (PFloat a) p = term_loop (PFloat (fmul a b)) p2"
    by (simp add: term_loop.simps[of "PFloat a" p] Let_def py_mul_def float_op_def)
  also from assms(4-7) have "\<dots> = term_loop (PFloat (fdiv (fmul a b) c)) p4"
    by (simp add: term_loop.simps[of "PFloat (fmul a b)" p2] Let_def py_truediv_def
        float_op_def float_div_def)
  finally show ?thesis .
qed



subsection \<open>Logical negation\<close>

text \<open>
  C5. \<open>NOT\<close> applied to a factor returns the boolean negation of its value \<open>v\<close>; for a
  number (a float, a boolean or an integer) that is \<open>True\<close> exactly when \<open>v\<close> equals
  zero.
\<close>

theorem not_factor:
  assumes "tok_type (current_token p) = NOT"
    and "eat NOT p = Inr p1"
    and "factor p1 = Inr (v, p2)"
  shows "factor p = Inr (py_not v, p2) \<and>
         ((\<forall>s. v \<noteq> PStr s) \<and> v \<noteq> PNone \<longrightarrow> py_not v = PBool (py_eq_zero v))"
proof -
  from assms have "factor p = Inr (py_not v, p2)"
    by (simp add: factor.simps[of p] Let_def)
  moreover have "(\<forall>s. v \<noteq> PStr s) \<and> v \<noteq> PNone \<longrightarrow> py_not v = PBool (py_eq_zero v)"
    by (cases v) (simp_all add: py_not_def)
  ultimately show ?thesis by simp
qed

theorem not_factor_witness:
  "map_sum id fst (factor (projr (Parser_init (Lexer_init ''NOT 0'')))) = Inr (PBool True) \<and>
   map_sum id fst (factor (projr (Parser_init (Lexer_init ''NOT 5'')))) = Inr (PBool False) \<and>
   evaluate ''NOT 0'' = Inr (PBool True) \<and> evaluate ''NOT 5'' = Inr (PBool False)"
proof -
  let ?p = "projr (Parser_init (Lexer_init ''NOT 0''))"
  let ?p1 = "projr (eat NOT ?p)"
  let ?p2 = "snd (projr (factor ?p1))"
  have h1: "tok_type (current_token ?p) = NOT" by code_simp
  have h2: "eat NOT ?p = Inr ?p1" by code_simp
  have h3: "factor ?p1 = Inr (PFloat (Fin False 0 0), ?p2)" by code_simp
  let ?q = "projr (Parser_init (Lexer_init ''NOT 5''))"
  let ?q1 = "projr (eat NOT ?q)"
  let ?q2 = "snd (projr (factor ?q1))"
  have k1: "tok_type (current_token ?q) = NOT" by code_simp
  have k2: "eat NOT ?q = Inr ?q1" by code_simp
  have k3: "factor ?q1 = Inr (PFloat (Fin False 5 0), ?q2)" by code_simp
  have e: "evaluate ''NOT 0'' = Inr (PBool True)" by code_simp
  have e': "evaluate ''NOT 5'' = Inr (PBool False)" by code_simp
  from not_factor[OF h1 h2 h3] not_factor[OF k1 k2 k3] e e' show ?thesis
    by (simp add: py_not_def)
qed

subsection \<open>Malformed numbers\<close>

lemma consistent_advance: "consistent (advance lx)"
  by (simp add: consistent_def advance_def Let_def)

lemma advance_text_pos: "text (advance lx) = text lx \<and> pos (advance lx) = pos lx + 1"
  by (simp add: advance_def Let_def)

lemma number_loop_run:
  "consistent lx \<Longrightarrow>
   fst (number_loop lx acc) =
     acc @ takeWhile (\<lambda>c. isdigit c \<or> c = CHR ''.'') (drop (pos lx) (text lx)) \<and>
   pos (snd (number_loop lx acc)) =
     pos lx + length (takeWhile (\<lambda>c. isdigit c \<or> c = CHR ''.'') (drop (pos lx) (text lx)))"
proof (induction lx acc rule: number_loop.induct)
  case (1 lx result)
  let ?P = "\<lambda>c. isdigit c \<or> c = CHR ''.''"
  show ?case
  proof (cases "pos lx < length (text lx)")
    case False
    with 1(2) show ?thesis
      by (simp add: consistent_def number_loop.simps[of lx result])
  next
    case True
    define c where "c = text lx ! pos lx"
    from True 1(2) have cc: "current_char lx = Some c"
      by (simp add: consistent_def c_def)
    from True have dr: "drop (pos lx) (text lx) = c # drop (Suc (pos lx)) (text lx)"
      by (simp add: c_def Cons_nth_drop_Suc)
    show ?thesis
    proof (cases "?P c")
      case False
      with cc dr show ?thesis
        by (simp add: number_loop.simps[of lx result])
    next
      case P: True
      have nl: "number_loop lx result = number_loop (advance lx) (result @ [c])"
        using cc P by (simp add: number_loop.simps[of lx result])
      from 1(1)[OF cc P consistent_advance]
      show ?thesis
        using nl dr P by (simp add: advance_text_pos)
    qed
  qed
qed

text \<open>\<^verbatim>\<open>float\<close> refuses a string with two dots.\<close>

lemma py_float_two_dots:
  assumes "2 \<le> count_list s (CHR ''.'')"
  shows "py_float s = Inl (ValueError s)"
proof -
  let ?ip = "takeWhile (\<lambda>c. c \<noteq> CHR ''.'') s"
  let ?rest = "dropWhile (\<lambda>c. c \<noteq> CHR ''.'') s"
  let ?fp = "drop (Suc (length ?ip)) s"
  have s: "s = ?ip @ ?rest" by simp
  have "CHR ''.'' \<notin> set ?ip"
    by (auto dest: set_takeWhileD)
  then have "count_list ?ip (CHR ''.'') = 0"
    by (simp add: count_list_0_iff)
  moreover have "count_list s (CHR ''.'') = count_list ?ip (CHR ''.'') + count_list ?rest (CHR ''.'')"
    by (subst s) (simp del: takeWhile_dropWhile_id)
  ultimately have r2: "2 \<le> count_list ?rest (CHR ''.'')"
    using assms by simp
  then obtain x xs where rest: "?rest = x # xs"
    by (cases ?rest) auto
  then have "x = CHR ''.''"
    using hd_dropWhile[of "\<lambda>c. c \<noteq> CHR ''.''" s] by auto
  with r2 rest have "1 \<le> count_list xs (CHR ''.'')" by simp
  then have "CHR ''.'' \<in> set xs"
    using count_list_0_iff[of xs "CHR ''.''"] by auto
  moreover have "?fp = xs"
  proof -
    have "?fp = tl (drop (length ?ip) s)"
      by (simp add: drop_Suc tl_drop)
    also have "drop (length ?ip) s = ?rest"
      by (simp add: dropWhile_eq_drop)
    finally show ?thesis using rest by simp
  qed
  ultimately have "CHR ''.'' \<in> set (?ip @ ?fp)" by simp
  moreover have "\<not> is_ascii_digit (CHR ''.'')"
    by (simp add: is_ascii_digit_def)
  ultimately have "\<not> (list_all is_ascii_digit ?ip \<and> list_all is_ascii_digit ?fp)"
    by (auto simp: list_all_iff)
  then show ?thesis
    by (auto simp: py_float_def Let_def)
qed

text \<open>
  C6, as the code has it. On a digit the scanner consumes the maximal run of digit or dot
  characters, whatever the number of dots, and hands the run to \<^verbatim>\<open>float\<close>: a run with
  two dots or more, such as \<^verbatim>\<open>1.2.3\<close>, is consumed whole and then refused with
  \<open>ValueError\<close>, so that \<^verbatim>\<open>Lexer.number\<close> fails and builds no token.
\<close>

theorem number_consumes_maximal_run:
  assumes "consistent lx"
  shows "\<exists>run lx'. number_loop lx [] = (run, lx') \<and>
           run = takeWhile (\<lambda>c. isdigit c \<or> c = CHR ''.'') (drop (pos lx) (text lx)) \<and>
           pos lx' = pos lx + length run \<and>
           (2 \<le> count_list run (CHR ''.'') \<longrightarrow> number lx = Inl (ValueError run))"
proof -
  obtain run lx' where nl: "number_loop lx [] = (run, lx')"
    by (cases "number_loop lx []")
  from number_loop_run[OF assms, of "[]"] nl
  have r: "run = takeWhile (\<lambda>c. isdigit c \<or> c = CHR ''.'') (drop (pos lx) (text lx))"
    "pos lx' = pos lx + length run"
    by simp_all
  have "2 \<le> count_list run (CHR ''.'') \<longrightarrow> number lx = Inl (ValueError run)"
    using nl by (simp add: number_def py_float_two_dots)
  with nl r show ?thesis by blast
qed

theorem number_consumes_maximal_run_witness:
  "consistent (Lexer_init ''1.2.3'') \<and>
   (\<exists>run lx'. number_loop (Lexer_init ''1.2.3'') [] = (run, lx') \<and>
      run = ''1.2.3'' \<and> pos lx' = 5 \<and> number (Lexer_init ''1.2.3'') = Inl (ValueError run))"
proof -
  have c: "consistent (Lexer_init ''1.2.3'')"
    by (simp add: consistent_def Lexer_init_def)
  have t: "takeWhile (\<lambda>c. isdigit c \<or> c = CHR ''.'')
             (drop (pos (Lexer_init ''1.2.3'')) (text (Lexer_init ''1.2.3''))) = ''1.2.3''"
    by (simp add: Lexer_init_def isdigit_def code_def)
  have p: "pos (Lexer_init ''1.2.3'') = 0"
    by (simp add: Lexer_init_def)
  from number_consumes_maximal_run[OF c] t p c show ?thesis
    by auto
qed

text \<open>
  The specification's sentence (a malformed literal is accepted) fails at \<^verbatim>\<open>1.2.3\<close>:
  the scanner returns no \<open>NUMBER\<close>
  token, it fails.
\<close>

theorem malformed_number_counterexample:
  "get_next_token (Lexer_init ''1.2.3'') = Inl (ValueError ''1.2.3'') \<and>
   evaluate ''1.2.3'' = Inl (ValueError ''1.2.3'')"
  by code_simp

subsection \<open>Words that are not keywords\<close>

text \<open>What \<^verbatim>\<open>Lexer._id\<close> reports for a word that is no keyword: the cursor after the word.\<close>

lemma lexer_id_unknown_word:
  "id_loop lx [] = (w, lx') \<Longrightarrow> keywords' (upper w) = None \<Longrightarrow>
   lexer_id lx = Inl (UnexpectedCharacter (current_char lx') (line lx') (column lx'))"
  by (simp add: lexer_id_def lexer_error_def)

text \<open>
  C7. A word that is no keyword makes the scanner fail with \<^verbatim>\<open>Lexer.error\<close>, and the
  error is built after the word has been consumed: for \<^verbatim>\<open>abc\<close> it carries no character
  at all (\<open>None\<close>, the end of the input) and column 4, for \<^verbatim>\<open>abc+1\<close> the \<^verbatim>\<open>+\<close> that
  follows the word, where the specification has the offending character and its position.
\<close>

theorem unknown_word_error_position:
  "evaluate ''abc'' = Inl (UnexpectedCharacter None 1 4) \<and>
   evaluate ''abc+1'' = Inl (UnexpectedCharacter (Some CHR ''+'') 1 4)"
  by code_simp

subsection \<open>Lines and columns\<close>

text \<open>
  C8. Advancing past a newline adds one to the line and leaves the column at 1 (reset to
  0, then incremented): the character after the newline is reported at column 1 of the
  next line.
\<close>

theorem advance_newline:
  assumes "current_char lx = Some (CHR 0x0A)"
  shows "line (advance lx) = line lx + 1 \<and> column (advance lx) = 1 \<and>
         lexer_error (advance lx) =
           UnexpectedCharacter (current_char (advance lx)) (line lx + 1) 1"
  using assms by (simp add: advance_def lexer_error_def Let_def)

theorem advance_newline_witness:
  "current_char (Lexer_init [CHR 0x0A, CHR ''@'']) = Some (CHR 0x0A) \<and>
   line (advance (Lexer_init [CHR 0x0A, CHR ''@''])) = 2 \<and>
   column (advance (Lexer_init [CHR 0x0A, CHR ''@''])) = 1 \<and>
   evaluate [CHR 0x0A, CHR ''@''] = Inl (UnexpectedCharacter (Some CHR ''@'') 2 1) \<and>
   map_sum id (\<lambda>(t, l). (tok_type t, tok_line t, tok_column t))
     (get_next_token (Lexer_init [CHR 0x0A, CHR ''*''])) = Inr (MULTIPLY, 2, 1)"
proof -
  have h: "current_char (Lexer_init [CHR 0x0A, CHR ''@'']) = Some (CHR 0x0A)"
    by (simp add: Lexer_init_def)
  have l: "line (Lexer_init [CHR 0x0A, CHR ''@'']) = 1"
    by (simp add: Lexer_init_def)
  have e: "evaluate [CHR 0x0A, CHR ''@''] = Inl (UnexpectedCharacter (Some CHR ''@'') 2 1)"
    by code_simp
  have t: "map_sum id (\<lambda>(t, l). (tok_type t, tok_line t, tok_column t))
     (get_next_token (Lexer_init [CHR 0x0A, CHR ''*''])) = Inr (MULTIPLY, 2, 1)"
    by code_simp
  from advance_newline[OF h] l h e t show ?thesis by simp
qed

subsection \<open>Repeated evaluation\<close>

text \<open>A call in any world has the outcome of \<open>evaluate\<close>, and leaves the older objects alone.\<close>

lemma evaluate_in_outcome: "fst (evaluate_in w t) = evaluate t"
  by (auto simp: evaluate_in_def new_Lexer_def new_Parser_def lexer_get_next_token_def
      parser_parse_def parser_state_def evaluate_def Parser_init_def
      split: sum.splits prod.splits)

lemma evaluate_in_frame:
  "take (length (lexer_heap w)) (lexer_heap (snd (evaluate_in w t))) = lexer_heap w \<and>
   take (length (parser_heap w)) (parser_heap (snd (evaluate_in w t))) = parser_heap w"
  by (auto simp: evaluate_in_def new_Lexer_def new_Parser_def lexer_get_next_token_def
      parser_parse_def parser_state_def
      split: sum.splits prod.splits)

text \<open>
  C9. Whatever objects earlier calls have left, a call of \<^verbatim>\<open>evaluate\<close> on a string has
  the same outcome, the same value or the same error: in any two worlds, and in the world
  that a first call on the same string leaves behind. The call reads the two objects it
  creates and no other, and it changes no object that was there before.
\<close>

theorem evaluate_no_leak:
  "fst (evaluate_in w t) = fst (evaluate_in w' t) \<and>
   fst (evaluate_in (snd (evaluate_in w t)) t) = fst (evaluate_in w t) \<and>
   fst (evaluate_in w t) = evaluate t \<and>
   take (length (lexer_heap w)) (lexer_heap (snd (evaluate_in w t))) = lexer_heap w \<and>
   take (length (parser_heap w)) (parser_heap (snd (evaluate_in w t))) = parser_heap w"
  using evaluate_in_frame[of w t] by (simp add: evaluate_in_outcome)

text \<open>
  Three calls in a row from the empty world, the second one failing: the third has the
  outcome of the first.
\<close>

theorem evaluate_no_leak_witness:
  "fst (evaluate_in \<lparr>lexer_heap = [], parser_heap = []\<rparr> ''2*3'') = Inr (PFloat (Fin False 3 1)) \<and>
   fst (evaluate_in (snd (evaluate_in \<lparr>lexer_heap = [], parser_heap = []\<rparr> ''2*3'')) ''5/0'') =
     Inl DivisionByZero \<and>
   fst (evaluate_in
          (snd (evaluate_in (snd (evaluate_in \<lparr>lexer_heap = [], parser_heap = []\<rparr> ''2*3'')) ''5/0''))
          ''2*3'') = Inr (PFloat (Fin False 3 1)) \<and>
   length (lexer_heap
     (snd (evaluate_in (snd (evaluate_in \<lparr>lexer_heap = [], parser_heap = []\<rparr> ''2*3'')) ''5/0''))) = 2"
proof -
  let ?w0 = "\<lparr>lexer_heap = [], parser_heap = []\<rparr>"
  let ?w1 = "snd (evaluate_in ?w0 ''2*3'')"
  let ?w2 = "snd (evaluate_in ?w1 ''5/0'')"
  have a: "fst (evaluate_in ?w0 ''2*3'') = Inr (PFloat (Fin False 3 1))" by code_simp
  have b: "fst (evaluate_in ?w1 ''5/0'') = Inl DivisionByZero" by code_simp
  have c: "length (lexer_heap ?w2) = 2" by code_simp
  from evaluate_no_leak[of ?w2 "''2*3''" ?w0] a
  have "fst (evaluate_in ?w2 ''2*3'') = Inr (PFloat (Fin False 3 1))" by simp
  with a b c show ?thesis by (intro conjI)
qed

subsection \<open>Remainder by zero\<close>

lemma to_float_zero:
  "py_eq_zero d \<Longrightarrow> \<exists>z. to_float d = Inr z \<and> is_zero z"
  by (cases d) (auto simp: int_to_float_def round_ratio_def)

lemma py_mod_zero:
  assumes "py_eq_zero d" and "to_float result = Inr x"
  shows "py_mod result d = Inl ZeroDivisionError"
proof -
  from assms(1) obtain z where z: "to_float d = Inr z" "is_zero z"
    using to_float_zero by blast
  show ?thesis
  proof (cases "as_int result")
    case None
    then show ?thesis
      using assms(2) z by (simp add: py_mod_def float_op_def float_rem_def)
  next
    case (Some i)
    show ?thesis
    proof (cases "as_int d")
      case None
      then show ?thesis
        using Some assms(2) z by (simp add: py_mod_def float_op_def float_rem_def)
    next
      case (Some j)
      with assms(1) have "j = 0" by (cases d) auto
      with Some \<open>as_int result = Some i\<close> show ?thesis by (simp add: py_mod_def)
    qed
  qed
qed

text \<open>
  C10. When the right operand of a \<open>MODULO\<close> evaluates to zero (and the left one is a
  number), the term fails with the host's \<open>ZeroDivisionError\<close>, not with the
  \<open>DivisionByZero\<close> of the check that \<open>term'\<close> makes for \<open>DIVIDE\<close> only.
\<close>

theorem modulo_by_zero:
  assumes "tok_type (current_token p) = MODULO"
    and "eat MODULO p = Inr p1"
    and "factor p1 = Inr (v, p2)"
    and "py_eq_zero v"
    and "to_float result = Inr x"
  shows "term_loop result p = Inl ZeroDivisionError \<and> term_loop result p \<noteq> Inl DivisionByZero"
  using assms py_mod_zero[OF assms(4,5)] by (simp add: term_loop.simps[of result p] Let_def)

theorem modulo_by_zero_witness:
  "term_loop (PFloat (Fin False 5 0)) (projr (Parser_init (Lexer_init ''%0''))) =
     Inl ZeroDivisionError \<and>
   evaluate ''5%0'' = Inl ZeroDivisionError \<and> evaluate ''5/0'' = Inl DivisionByZero"
proof -
  let ?p = "projr (Parser_init (Lexer_init ''%0''))"
  let ?p1 = "projr (eat MODULO ?p)"
  let ?p2 = "snd (projr (factor ?p1))"
  have h1: "tok_type (current_token ?p) = MODULO" by code_simp
  have h2: "eat MODULO ?p = Inr ?p1" by code_simp
  have h3: "factor ?p1 = Inr (PFloat (Fin False 0 0), ?p2)" by code_simp
  have h4: "py_eq_zero (PFloat (Fin False 0 0))" by simp
  have h5: "to_float (PFloat (Fin False 5 0)) = Inr (Fin False 5 0)" by simp
  have e: "evaluate ''5%0'' = Inl ZeroDivisionError" by code_simp
  have e': "evaluate ''5/0'' = Inl DivisionByZero" by code_simp
  from modulo_by_zero[OF h1 h2 h3 h4 h5] e e' show ?thesis by simp
qed

end
